theory Spec2Isabelle
  imports Main "HOL-Library.Multiset"
begin

unbundle bit_operations_syntax

section \<open>Types produced by the parser\<close>

text \<open>
  The parser of \<^verbatim>\<open>clang/types/parser/parser.go\<close> builds values of \<^verbatim>\<open>go/types.Type\<close>.
  Only the constructors the parser itself uses are modelled: the basic kinds it reads from
  \<^verbatim>\<open>types.Typ\<close>, pointers, arrays and signatures. A signature carries its parameter
  tuple and its result tuple; every variable of a tuple is built by
  \<^verbatim>\<open>types.NewParam(token.NoPos, pkg, "", t)\<close>, so a tuple is the list of its types.
\<close>

datatype basic =
  Int8 | Int16 | Int32 | Int64 | Uint8 | Uint16 | Uint32 | Uint64
  | Complex64 | Complex128 | UnsafePointer

text \<open>
  Modelled from the spec: the package \<^verbatim>\<open>clang/types\<close> (imported as \<^verbatim>\<open>ctypes\<close>) is not
  part of the sources at hand. Its values \<^verbatim>\<open>Void\<close>, \<^verbatim>\<open>Long\<close>, \<^verbatim>\<open>Ulong\<close>,
  \<^verbatim>\<open>LongDouble\<close>, \<^verbatim>\<open>Int128\<close> and \<^verbatim>\<open>Uint128\<close> are the spec's void marker, long-width,
  ulong-width, long-double and 128-bit integers; they are kept as constructors of their own.
  \<^verbatim>\<open>Named\<close> stands for a type owned by the type registry.
\<close>

datatype ctype =
  Typ basic
  | Void | Long | Ulong | LongDouble | Int128 | Uint128
  | Named string
  | Pointer ctype
  | Array ctype int
  | Signature "ctype list" "ctype list"

text \<open>
  Modelled from the spec: \<^verbatim>\<open>ctypes.NotVoid\<close> (not part of the sources at hand) tells the
  void marker from every other type.
\<close>

definition NotVoid :: "ctype \<Rightarrow> bool" where
  "NotVoid t \<longleftrightarrow> t \<noteq> Void"

fun isSignature :: "ctype \<Rightarrow> bool" where
  "isSignature (Signature ps rs) = True"
| "isSignature _ = False"

section \<open>Tokens and the scanner\<close>

text \<open>
  The token kinds of \<^verbatim>\<open>go/token\<close> the parser distinguishes. \<^verbatim>\<open>ILLEGAL\<close> is the zero value
  of a token; \<^verbatim>\<open>OTHER\<close> is any further kind, with its printed name.
\<close>

datatype token =
  ILLEGAL | EOF | IDENT | INT_tok | MUL | XOR_tok | LPAREN | RPAREN | LBRACK | RBRACK | COMMA
  | OTHER string

fun token_String :: "token \<Rightarrow> string" where
  "token_String ILLEGAL = ''ILLEGAL''"
| "token_String EOF = ''EOF''"
| "token_String IDENT = ''IDENT''"
| "token_String INT_tok = ''INT''"
| "token_String MUL = ''*''"
| "token_String XOR_tok = ''^''"
| "token_String LPAREN = ''(''"
| "token_String RPAREN = '')''"
| "token_String LBRACK = ''[''"
| "token_String RBRACK = '']''"
| "token_String COMMA = '',''"
| "token_String (OTHER n) = n"

type_synonym Pos = int

type_synonym lexeme = "Pos \<times> token \<times> string"

text \<open>
  Modelled from the spec: the tokenizer (package \<^verbatim>\<open>clang/types/scanner\<close>) is not part of
  the sources at hand. The spec gives its contract: \<^verbatim>\<open>Scan\<close> yields (position, token kind,
  literal text) triples until end of input, and \<^verbatim>\<open>Source\<close> reports the original text.
  A scanner is therefore the text, the triples it has not yet delivered, and the position
  it reports at the end of input; once the triples are used up every further \<^verbatim>\<open>Scan\<close>
  yields \<^verbatim>\<open>EOF\<close>.
\<close>

record scanner =
  src :: string
  toks :: "lexeme list"
  eofPos :: Pos

definition Scan :: "scanner \<Rightarrow> lexeme \<times> scanner" where
  "Scan sc = (case toks sc of
      [] \<Rightarrow> ((eofPos sc, EOF, ''''), sc)
    | x # xs \<Rightarrow> (x, sc\<lparr>toks := xs\<rparr>))"

definition Source :: "scanner \<Rightarrow> string" where
  "Source sc = src sc"

text \<open>
  Modelled from the spec: how the tokenizer cuts a text into triples. Identifiers are
  letters, digits and underscores starting with a letter or an underscore; integer
  literals are digit sequences; the symbols are \<^verbatim>\<open>* ( ) [ ] , ^\<close>; blanks separate
  tokens; any other character is a token of a further kind. Positions are offsets into
  the text.
\<close>

definition isLetter :: "char \<Rightarrow> bool" where
  "isLetter c \<longleftrightarrow> c \<in> set ''abcdefghijklmnopqrstuvwxyzABCDEFGHIJKLMNOPQRSTUVWXYZ_''"

definition isDecimal :: "char \<Rightarrow> bool" where
  "isDecimal c \<longleftrightarrow> c \<in> set ''0123456789''"

definition isIdentChar :: "char \<Rightarrow> bool" where
  "isIdentChar c \<longleftrightarrow> isLetter c \<or> isDecimal c"

definition isBlank :: "char \<Rightarrow> bool" where
  "isBlank c \<longleftrightarrow> c \<in> set [CHR '' '', CHR 0x09, CHR 0x0A, CHR 0x0D]"

definition symbolToken :: "char \<Rightarrow> token" where
  "symbolToken c =
    (if c = CHR ''*'' then MUL
     else if c = CHR ''^'' then XOR_tok
     else if c = CHR ''('' then LPAREN
     else if c = CHR '')'' then RPAREN
     else if c = CHR ''['' then LBRACK
     else if c = CHR '']'' then RBRACK
     else if c = CHR '','' then COMMA
     else OTHER [c])"

function scanFrom :: "int \<Rightarrow> string \<Rightarrow> lexeme list" where
  "scanFrom off [] = []"
| "scanFrom off (c # cs) =
    (if isBlank c then scanFrom (off + 1) cs
     else if isLetter c then
       (off, IDENT, c # takeWhile isIdentChar cs)
         # scanFrom (off + 1 + int (length (takeWhile isIdentChar cs))) (dropWhile isIdentChar cs)
     else if isDecimal c then
       (off, INT_tok, c # takeWhile isDecimal cs)
         # scanFrom (off + 1 + int (length (takeWhile isDecimal cs))) (dropWhile isDecimal cs)
     else (off, symbolToken c, []) # scanFrom (off + 1) cs)"
  by pat_completeness auto

termination
  by (relation "measure (\<lambda>(off, cs). length cs)")
     (auto simp: length_dropWhile_le le_imp_less_Suc)

definition scanner_Init :: "string \<Rightarrow> scanner" where
  "scanner_Init qualType =
     \<lparr>src = qualType, toks = scanFrom 0 qualType, eofPos = int (length qualType)\<rparr>"

section \<open>Errors and results\<close>

text \<open>
  The errors a call can return: a \<^verbatim>\<open>ParseTypeError\<close> with its fields \<^verbatim>\<open>QualType\<close>,
  \<^verbatim>\<open>Pos\<close> and \<^verbatim>\<open>ErrMsg\<close>, the two sentinels of the package, and \<^verbatim>\<open>io.ErrUnexpectedEOF\<close>.
\<close>

datatype error =
  ParseTypeError string Pos string
  | ErrNotFound
  | ErrInvalidType
  | ErrUnexpectedEOF

text \<open>
  A call either returns a value, returns an error, ends the process through
  \<^verbatim>\<open>log.Fatalln\<close>, or panics at run time. A \<^verbatim>\<open>Fatal\<close> outcome keeps the fixed first
  part of the logged message; the literal, token and position that two of the messages
  print behind it are left out.
\<close>

datatype 'a result = Ok 'a | Err error | Fatal string | Panic string

fun andThen :: "'a result \<Rightarrow> ('a \<Rightarrow> 'b result) \<Rightarrow> 'b result" where
  "andThen (Ok x) f = f x"
| "andThen (Err e) f = Err e"
| "andThen (Fatal m) f = Fatal m"
| "andThen (Panic m) f = Panic m"

lemma andThen_cong [fundef_cong]:
  "r = r' \<Longrightarrow> (\<And>x. r' = Ok x \<Longrightarrow> f x = f' x) \<Longrightarrow> andThen r f = andThen r' f'"
  by (cases r') auto

section \<open>The parser state\<close>

record parser =
  s :: scanner
  scope :: "string \<Rightarrow> ctype option"
  pos :: Pos
  tok :: token
  lit :: string

definition FlagIsParam :: int where "FlagIsParam = 1"
definition FlagGetRetType :: int where "FlagGetRetType = 2"

definition isParam :: "int \<Rightarrow> bool" where
  "isParam flags \<longleftrightarrow> (flags AND FlagIsParam) \<noteq> 0"

definition getRetType :: "int \<Rightarrow> bool" where
  "getRetType flags \<longleftrightarrow> (flags AND FlagGetRetType) \<noteq> 0"

definition parser_next :: "parser \<Rightarrow> parser" where
  "parser_next p = (case Scan (s p) of
      ((ps, tk, lt), sc) \<Rightarrow> p\<lparr>s := sc, pos := ps, tok := tk, lit := lt\<rparr>)"

definition newError :: "parser \<Rightarrow> string \<Rightarrow> error" where
  "newError p errMsg = ParseTypeError (Source (s p)) (pos p) errMsg"

definition expect :: "token \<Rightarrow> parser \<Rightarrow> error option \<times> parser" where
  "expect tokExp p =
     (let p1 = parser_next p in
      if tok p1 \<noteq> tokExp
      then (Some (newError p1 (''expect '' @ token_String tokExp @ '', got '' @ token_String (tok p1))), p1)
      else (None, p1))"

definition expect2 :: "token \<Rightarrow> token \<Rightarrow> parser \<Rightarrow> error option \<times> parser" where
  "expect2 tokExp tokExp2 p =
     (let p1 = parser_next p in
      if tok p1 \<noteq> tokExp \<and> tok p1 \<noteq> tokExp2
      then (Some (newError p1 (''expect '' @ token_String tokExp @ '', got '' @ token_String (tok p1))), p1)
      else (None, p1))"

section \<open>Resolving primitive types\<close>

definition flagShort :: int where "flagShort = 1"
definition flagLong :: int where "flagLong = 2"
definition flagLongLong :: int where "flagLongLong = 4"
definition flagUnsigned :: int where "flagUnsigned = 8"
definition flagSigned :: int where "flagSigned = 16"
definition flagComplex :: int where "flagComplex = 32"

text \<open>
  The array \<^verbatim>\<open>intTypes\<close>: sixteen entries, indexed by a flag set; an index the literal
  does not name holds nil, and so does the last one, which it names with nil.
\<close>

definition intTypes :: "ctype option list" where
  "intTypes =
    [Some (Typ Int32), Some (Typ Int16), Some Long, None,
     None, None, Some (Typ Int64), None,
     Some (Typ Uint32), Some (Typ Uint16), Some Ulong, None,
     None, None, Some (Typ Uint64), None]"

text \<open>
  \<^verbatim>\<open>lookupType\<close>. Inside the branch for non-empty flags every \<^verbatim>\<open>switch\<close> either returns
  or falls through to \<^verbatim>\<open>log.Fatalln\<close>; the \<^verbatim>\<open>return nil, ErrInvalidType\<close> behind it is
  never reached. Indexing \<^verbatim>\<open>intTypes\<close> out of range panics.
\<close>

definition lookupType :: "parser \<Rightarrow> string \<Rightarrow> int \<Rightarrow> ctype result" where
  "lookupType p lt flags =
    (if flags \<noteq> 0 then
       (if (flags AND flagComplex) \<noteq> 0 then
          (if lt = ''float'' then Ok (Typ Complex64)
           else if lt = ''double'' then Ok (Typ Complex128)
           else Fatal ''lookupType: TODO - invalid type'')
        else
          (if lt = ''int'' then
             (let i = flags AND NOT flagSigned in
              if i < 0 \<or> int (length intTypes) \<le> i then Panic ''index out of range''
              else (case intTypes ! nat i of
                      Some t \<Rightarrow> Ok t
                    | None \<Rightarrow> Fatal ''lookupType: TODO - invalid type''))
           else if lt = ''char'' then
             (if flags = flagUnsigned then Ok (Typ Uint8)
              else if flags = flagSigned then Ok (Typ Int8)
              else Fatal ''lookupType: TODO - invalid type'')
           else if lt = ''double'' then
             (if flags = flagLong then Ok LongDouble
              else Fatal ''lookupType: TODO - invalid type'')
           else if lt = ''__int128'' then
             (if flags = flagSigned then Ok Int128
              else if flags = flagUnsigned then Ok Uint128
              else Fatal ''lookupType: TODO - invalid type'')
           else Fatal ''lookupType: TODO - invalid type''))
     else if lt = ''int'' then Ok (Typ Int32)
     else (case scope p lt of
             Some t \<Rightarrow> Ok t
           | None \<Rightarrow> Err ErrNotFound))"

section \<open>Pointers and arrays\<close>

definition newPointer :: "ctype \<Rightarrow> ctype" where
  "newPointer t = (if NotVoid t then Pointer t else Typ UnsafePointer)"

text \<open>
  \<^verbatim>\<open>strconv.ParseInt(lit, 10, 64)\<close> of the Go library: an optional sign, then decimal
  digits only, and a value that fits 64 bits; otherwise an error with its message, which
  quotes the literal (the escapes of \<^verbatim>\<open>strconv.Quote\<close> are not modelled).
\<close>

definition digitVal :: "char \<Rightarrow> int" where
  "digitVal c = int (of_char c) - 48"

definition ParseInt :: "string \<Rightarrow> string + int" where
  "ParseInt str =
    (let neg = (str \<noteq> [] \<and> hd str = CHR ''-'');
         ds = (if str \<noteq> [] \<and> (hd str = CHR ''-'' \<or> hd str = CHR ''+'') then tl str else str)
     in if ds = [] \<or> \<not> list_all isDecimal ds
        then Inl (''strconv.ParseInt: parsing '' @ [CHR 0x22] @ str @ [CHR 0x22] @ '': invalid syntax'')
        else (let v = foldl (\<lambda>a c. 10 * a + digitVal c) 0 ds;
                  n = (if neg then - v else v)
              in if n < - (2 ^ 63) \<or> 2 ^ 63 \<le> n
                 then Inl (''strconv.ParseInt: parsing '' @ [CHR 0x22] @ str @ [CHR 0x22]
                        @ '': value out of range'')
                 else Inr n))"

definition parseArray :: "ctype option \<Rightarrow> int \<Rightarrow> parser \<Rightarrow> (ctype \<times> parser) result" where
  "parseArray t inFlags p =
    (case t of
       None \<Rightarrow> Err (newError p ''array to nil'')
     | Some ty \<Rightarrow>
        (let p1 = parser_next p in
         andThen
           (if tok p1 = RBRACK then Ok (- 1, p1)
            else if tok p1 = INT_tok then
              (case ParseInt (lit p1) of
                 Inl msg \<Rightarrow> Err (newError p1 msg)
               | Inr n \<Rightarrow>
                  (case expect RBRACK p1 of
                     (Some e, p2) \<Rightarrow> Err e
                   | (None, p2) \<Rightarrow> Ok (n, p2)))
            else Err (newError p1 ''array length not an integer''))
           (\<lambda>(n, p2).
              if isParam inFlags then Ok (newPointer ty, p2)
              else Ok (Array ty n, p2))))"

text \<open>
  What is left to read: twice the triples not yet delivered, plus one while the current
  token is not \<^verbatim>\<open>EOF\<close>. Reading a token never raises it, and lowers it unless the
  scanner is already exhausted.
\<close>

definition remaining :: "parser \<Rightarrow> nat" where
  "remaining p = 2 * length (toks (s p)) + (if tok p = EOF then 0 else 1)"

lemma remaining_next_le: "remaining (parser_next p) \<le> remaining p"
  by (auto simp: remaining_def parser_next_def Scan_def split: list.splits prod.splits)

lemma remaining_next_less:
  "tok (parser_next p) \<noteq> EOF \<Longrightarrow> remaining (parser_next p) < remaining p"
  by (auto simp: remaining_def parser_next_def Scan_def split: list.splits prod.splits)

lemma remaining_next_pos:
  "0 < remaining (parser_next p) \<Longrightarrow> remaining (parser_next p) < remaining p"
  by (auto simp: remaining_def parser_next_def Scan_def split: list.splits prod.splits if_splits)

lemma remaining_tok_EOF: "remaining (p\<lparr>tok := EOF\<rparr>) \<le> remaining p"
  by (simp add: remaining_def)

lemma parseArray_remaining:
  "parseArray t inFlags p = Ok (ret, p1) \<Longrightarrow> remaining p1 < remaining p"
  unfolding parseArray_def expect_def Let_def
  using remaining_next_less[of p] remaining_next_less[of "parser_next p"]
  by (auto split: option.splits if_splits sum.splits prod.splits)

text \<open>
  \<^verbatim>\<open>parseArrays\<close>: one bracket group after the other, until the token behind a group is
  \<^verbatim>\<open>EOF\<close>. The token behind a group is not looked at otherwise: the next round reads on
  from it.
\<close>

function parseArrays :: "ctype option \<Rightarrow> int \<Rightarrow> parser \<Rightarrow> (ctype \<times> parser) result" where
  "parseArrays t inFlags p =
     andThen (parseArray t inFlags p)
       (\<lambda>(ret, p1).
          let p2 = parser_next p1 in
          if tok p2 = EOF then Ok (ret, p2)
          else parseArrays (Some ret) inFlags p2)"
  by pat_completeness auto

termination
  apply (relation "measure (\<lambda>(t, inFlags, p). remaining p)")
   apply simp
  subgoal for t inFlags p x ret p1 p2
    using parseArray_remaining[of t inFlags p ret p1] remaining_next_le[of p1]
    by simp
  done

declare parseArrays.simps [simp del]

lemma parseArrays_remaining:
  "parseArrays t inFlags p = Ok (ret, p') \<Longrightarrow> remaining p' \<le> remaining p"
proof (induction t inFlags p rule: parseArrays.induct)
  case (1 t inFlags p)
  from "1.prems" obtain r1 p1 where a: "parseArray t inFlags p = Ok (r1, p1)"
    by (subst (asm) parseArrays.simps) (cases "parseArray t inFlags p"; auto)
  have lt: "remaining p1 < remaining p" using parseArray_remaining[OF a] .
  show ?case
  proof (cases "tok (parser_next p1) = EOF")
    case True
    with "1.prems" a have "p' = parser_next p1"
      by (subst (asm) parseArrays.simps) (simp add: Let_def)
    with lt remaining_next_le[of p1] show ?thesis by simp
  next
    case False
    with "1.prems" a have "parseArrays (Some r1) inFlags (parser_next p1) = Ok (ret, p')"
      by (subst (asm) parseArrays.simps) (simp add: Let_def)
    from "1.IH"[OF a refl refl False this] lt remaining_next_le[of p1] show ?thesis by simp
  qed
qed

section \<open>The parser driver\<close>

text \<open>
  The \<^verbatim>\<open>switch p.lit\<close> of the identifier case, up to the point where the switch is left:
  the parser, the type, the constness and the qualifier flags as the case leaves them.
\<close>

definition identSwitch ::
  "parser \<Rightarrow> ctype option \<Rightarrow> bool \<Rightarrow> int \<Rightarrow> (parser \<times> ctype option \<times> bool \<times> int) result" where
  "identSwitch p t isConst flags =
    (if lit p = ''unsigned'' then Ok (p, t, isConst, flags OR flagUnsigned)
     else if lit p = ''short'' then Ok (p, t, isConst, flags OR flagShort)
     else if lit p = ''long'' then
       (if (flags AND flagLong) \<noteq> 0 then Ok (p, t, isConst, flags OR flagLongLong)
        else Ok (p, t, isConst, flags OR flagLong))
     else if lit p = ''signed'' then Ok (p, t, isConst, flags OR flagSigned)
     else if lit p = ''const'' then Ok (p, t, True, flags)
     else if lit p = ''_Complex'' then Ok (p, t, isConst, flags OR flagComplex)
     else if lit p = ''volatile'' \<or> lit p = ''restrict'' \<or> lit p = ''_Nullable'' \<or> lit p = ''_Nonnull''
       then Ok (p, t, isConst, flags)
     else
       andThen
         (if lit p = ''struct'' \<or> lit p = ''union'' then
            (let p1 = parser_next p in
             if tok p1 \<noteq> IDENT then Fatal ''c.types.ParseType: struct/union - TODO''
             else Ok p1)
          else Ok p)
         (\<lambda>p1. case t of
             Some ty \<Rightarrow> Err (newError p1 ''illegal syntax: multiple types?'')
           | None \<Rightarrow> andThen (lookupType p1 (lit p1) flags) (\<lambda>ty. Ok (p1, Some ty, isConst, 0))))"

text \<open>
  \<^verbatim>\<open>parse\<close>, \<^verbatim>\<open>parseFunc\<close> and \<^verbatim>\<open>parseArgs\<close> call each other. The labels of
  \<^verbatim>\<open>parse\<close> are functions of their own, each taking the local variables of \<^verbatim>\<open>parse\<close>:
  \<^verbatim>\<open>parse_loop\<close> is the head of the \<^verbatim>\<open>for\<close> loop (read a token, then dispatch),
  \<^verbatim>\<open>parse_retry\<close> the label \<^verbatim>\<open>retry\<close> (dispatch on the current token),
  \<^verbatim>\<open>parse_ident\<close> the label \<^verbatim>\<open>ident\<close>, \<^verbatim>\<open>parse_nextTok\<close> the label \<^verbatim>\<open>nextTok\<close> with
  the locals \<^verbatim>\<open>args\<close> and \<^verbatim>\<open>isRetFn\<close>, and \<^verbatim>\<open>parseArgs_loop\<close> the loop of
  \<^verbatim>\<open>parseArgs\<close> with its local \<^verbatim>\<open>args\<close>. A call \<^verbatim>\<open>p.parse(flags)\<close> is \<^verbatim>\<open>parse_loop\<close>
  on the initial locals. An error return gives up the partial type, as every caller does.
\<close>

function
  parse_loop :: "int \<Rightarrow> parser \<Rightarrow> ctype option \<Rightarrow> bool \<Rightarrow> int \<Rightarrow> (ctype \<times> bool \<times> parser) result" and
  parse_retry :: "int \<Rightarrow> parser \<Rightarrow> ctype option \<Rightarrow> bool \<Rightarrow> int \<Rightarrow> (ctype \<times> bool \<times> parser) result" and
  parse_ident :: "int \<Rightarrow> parser \<Rightarrow> ctype option \<Rightarrow> bool \<Rightarrow> int \<Rightarrow> (ctype \<times> bool \<times> parser) result" and
  parse_nextTok :: "int \<Rightarrow> parser \<Rightarrow> ctype \<Rightarrow> bool \<Rightarrow> int \<Rightarrow> ctype list \<Rightarrow> bool \<Rightarrow> (ctype \<times> bool \<times> parser) result" and
  parseFunc :: "ctype \<Rightarrow> int \<Rightarrow> parser \<Rightarrow> (ctype \<times> parser) result" and
  parseArgs_loop :: "parser \<Rightarrow> ctype list \<Rightarrow> (ctype list \<times> parser) result"
where
  "parse_loop inFlags p t isConst flags = parse_retry inFlags (parser_next p) t isConst flags"
| "parse_retry inFlags p t isConst flags =
    (if tok p = IDENT then parse_ident inFlags p t isConst flags
     else if tok p = MUL then
       (case t of
          None \<Rightarrow> Err (newError p ''pointer to nil'')
        | Some ty \<Rightarrow> parse_loop inFlags p (Some (newPointer ty)) isConst flags)
     else if tok p = LBRACK then
       andThen (parseArrays t inFlags p)
         (\<lambda>(ty, p1). parse_loop inFlags p1 (Some ty) isConst flags)
     else if tok p = LPAREN then
       (case t of
          None \<Rightarrow> Err (newError p ''no function return type'')
        | Some ty \<Rightarrow>
           (case expect2 MUL XOR_tok p of
              (Some e, p1) \<Rightarrow>
                if getRetType inFlags then Ok (ty, isConst, p1\<lparr>tok := EOF\<rparr>) else Err e
            | (None, p1) \<Rightarrow> parse_nextTok inFlags p1 ty isConst flags [] False))
     else if tok p = RPAREN then
       Ok (case t of None \<Rightarrow> Void | Some ty \<Rightarrow> ty, isConst, p)
     else if tok p = COMMA \<or> tok p = EOF then
       (case t of
          None \<Rightarrow> Err ErrUnexpectedEOF
        | Some ty \<Rightarrow> Ok (ty, isConst, p))
     else Fatal ''c.types.ParseType: unknown'')"
| "parse_ident inFlags p t isConst flags =
    andThen (identSwitch p t isConst flags)
      (\<lambda>(p1, t1, isConst1, flags1).
         if flags1 \<noteq> 0 then
           (let p2 = parser_next p1 in
            if tok p2 = IDENT then parse_ident inFlags p2 t1 isConst1 flags1
            else
              (case t1 of
                 Some ty \<Rightarrow> Err (newError p2 ''illegal syntax: multiple types?'')
               | None \<Rightarrow>
                  andThen (lookupType p2 ''int'' flags1)
                    (\<lambda>ty. parse_retry inFlags p2 (Some ty) isConst1 0)))
         else parse_loop inFlags p1 t1 isConst1 flags1)"
| "parse_nextTok inFlags p ty isConst flags args isRetFn =
    (let p1 = parser_next p in
     if tok p1 = RPAREN then
       (let p2 = parser_next p1 in
        andThen
          (if tok p2 = LPAREN then parseFunc ty inFlags p2
           else if tok p2 = LBRACK then parseArrays (Some ty) 0 p2
           else Err (newError p2 (''unexpected '' @ token_String (tok p2))))
          (\<lambda>(ty1, p3).
             if isRetFn then
               (if getRetType inFlags then Ok (ty1, isConst, p3\<lparr>tok := EOF\<rparr>)
                else parse_loop inFlags p3 (Some (Signature args [ty1])) isConst flags)
             else if \<not> isSignature ty1 then parse_loop inFlags p3 (Some (Pointer ty1)) isConst flags
             else parse_loop inFlags p3 (Some ty1) isConst flags))
     else if tok p1 = LPAREN then
       (if \<not> isRetFn then
          andThen (parseArgs_loop p1 [])
            (\<lambda>(args1, p2). parse_nextTok inFlags p2 ty isConst flags args1 True)
        else Err (newError p1 ''expect )''))
     else if tok p1 = IDENT \<and> (lit p1 = ''_Nullable'' \<or> lit p1 = ''_Nonnull'') then
       parse_nextTok inFlags p1 ty isConst flags args isRetFn
     else Err (newError p1 ''expect )''))"
| "parseFunc t inFlags p =
    andThen (parseArgs_loop p [])
      (\<lambda>(args, p1). Ok (Signature args (if NotVoid t then [t] else []), p1))"
| "parseArgs_loop p args =
    andThen (parse_loop FlagIsParam p None False 0)
      (\<lambda>(arg, isConst, p1).
         let args1 = (if NotVoid arg then args @ [arg] else args) in
         if tok p1 = COMMA then parseArgs_loop p1 args1
         else if tok p1 \<noteq> RPAREN then Err (newError p1 ''expect )'')
         else Ok (args1, p1))"
  by pat_completeness auto

text \<open>
  Termination. No call gives back a parser with more left to read than it was given;
  a parameter that ends on a comma has read at least that comma.
\<close>

lemma andThen_eq_Ok: "andThen r f = Ok v \<longleftrightarrow> (\<exists>x. r = Ok x \<and> f x = Ok v)"
  by (cases r) auto

lemma identSwitch_remaining:
  "identSwitch p t isConst flags = Ok (p1, t1, c1, f1) \<Longrightarrow> remaining p1 \<le> remaining p"
  unfolding identSwitch_def Let_def
  using remaining_next_le[of p]
  by (auto split: if_splits option.splits elim!: andThen.elims)

lemma expect2_next: "expect2 a b p = (e, p1) \<Longrightarrow> p1 = parser_next p"
  by (auto simp: expect2_def Let_def split: if_splits)

lemma expect2_None:
  "expect2 a b p = (None, p1) \<Longrightarrow> p1 = parser_next p \<and> (tok p1 = a \<or> tok p1 = b)"
  by (auto simp: expect2_def Let_def split: if_splits)

lemma parse_remaining:
  "parse_loop_parse_retry_parse_ident_parse_nextTok_parseFunc_parseArgs_loop_dom (Inl (Inl (inFlags, p, t, isConst, flags)))
    \<Longrightarrow> (\<forall>r c p'. parse_loop inFlags p t isConst flags = Ok (r, c, p') \<longrightarrow> remaining p' \<le> remaining (parser_next p))"
  "parse_loop_parse_retry_parse_ident_parse_nextTok_parseFunc_parseArgs_loop_dom (Inl (Inr (Inl (inFlags, p, t, isConst, flags))))
    \<Longrightarrow> (\<forall>r c p'. parse_retry inFlags p t isConst flags = Ok (r, c, p') \<longrightarrow> remaining p' \<le> remaining p)"
  "parse_loop_parse_retry_parse_ident_parse_nextTok_parseFunc_parseArgs_loop_dom (Inl (Inr (Inr (inFlags, p, t, isConst, flags))))
    \<Longrightarrow> (\<forall>r c p'. parse_ident inFlags p t isConst flags = Ok (r, c, p') \<longrightarrow> remaining p' \<le> remaining p)"
  "parse_loop_parse_retry_parse_ident_parse_nextTok_parseFunc_parseArgs_loop_dom (Inr (Inl (inFlags, p, ty, isConst, flags, args, isRetFn)))
    \<Longrightarrow> (\<forall>r c p'. parse_nextTok inFlags p ty isConst flags args isRetFn = Ok (r, c, p') \<longrightarrow> remaining p' \<le> remaining p)"
  "parse_loop_parse_retry_parse_ident_parse_nextTok_parseFunc_parseArgs_loop_dom (Inr (Inr (Inl (ty, inFlags, p))))
    \<Longrightarrow> (\<forall>r p'. parseFunc ty inFlags p = Ok (r, p') \<longrightarrow> remaining p' \<le> remaining p)"
  "parse_loop_parse_retry_parse_ident_parse_nextTok_parseFunc_parseArgs_loop_dom (Inr (Inr (Inr (p, args))))
    \<Longrightarrow> (\<forall>r p'. parseArgs_loop p args = Ok (r, p') \<longrightarrow> remaining p' \<le> remaining p)"
proof (induct rule: parse_loop_parse_retry_parse_ident_parse_nextTok_parseFunc_parseArgs_loop.pinduct)
  case (1 inFlags p t isConst flags)
  then show ?case by (simp add: parse_loop.psimps)
next
  case (2 inFlags p t isConst flags)
  note dom = 2(1) and IH_ident = 2(2) and IH_mul = 2(3) and IH_arr = 2(4) and IH_paren = 2(5)
  show ?case
  proof (intro allI impI)
    fix r c p'
    assume "parse_retry inFlags p t isConst flags = Ok (r, c, p')"
    note eq = this[unfolded parse_retry.psimps[OF dom]]
    consider (ident) "tok p = IDENT" | (mul) "tok p = MUL" | (arr) "tok p = LBRACK"
      | (paren) "tok p = LPAREN" | (other) "tok p \<notin> {IDENT, MUL, LBRACK, LPAREN}"
      by auto
    then show "remaining p' \<le> remaining p"
    proof cases
      case ident
      with eq IH_ident show ?thesis by simp
    next
      case mul
      with eq obtain ty where ty: "t = Some ty"
        and l: "parse_loop inFlags p (Some (newPointer ty)) isConst flags = Ok (r, c, p')"
        by (auto split: option.splits)
      from IH_mul[of ty] mul ty l have "remaining p' \<le> remaining (parser_next p)" by simp
      then show ?thesis using remaining_next_le[of p] by simp
    next
      case arr
      with eq obtain ty p1 where a: "parseArrays t inFlags p = Ok (ty, p1)"
        and l: "parse_loop inFlags p1 (Some ty) isConst flags = Ok (r, c, p')"
        by (auto simp: andThen_eq_Ok)
      from IH_arr[OF _ _ arr a refl] arr l have "remaining p' \<le> remaining (parser_next p1)" by simp
      then show ?thesis
        using remaining_next_le[of p1] parseArrays_remaining[OF a] by simp
    next
      case paren
      with eq obtain ty where ty: "t = Some ty" by (auto split: option.splits)
      obtain e p1 where ex: "expect2 MUL XOR_tok p = (e, p1)" by (cases "expect2 MUL XOR_tok p")
      then have p1: "p1 = parser_next p" by (rule expect2_next)
      show ?thesis
      proof (cases e)
        case None
        with eq paren ty ex
        have n: "parse_nextTok inFlags p1 ty isConst flags [] False = Ok (r, c, p')" by simp
        from IH_paren[OF _ _ _ paren ty ex[symmetric] None] paren n
        have "remaining p' \<le> remaining p1" by simp
        then show ?thesis using p1 remaining_next_le[of p] by simp
      next
        case (Some err)
        with eq paren ty ex have "p' = p1\<lparr>tok := EOF\<rparr>" by (simp split: if_splits)
        then show ?thesis using p1 remaining_next_le[of p] remaining_tok_EOF[of p1] by simp
      qed
    next
      case other
      with eq have "p' = p" by (auto split: if_splits option.splits)
      then show ?thesis by simp
    qed
  qed
next
  case (3 inFlags p t isConst flags)
  note dom = 3(1) and IH_ident = 3(2) and IH_retry = 3(3) and IH_loop = 3(4)
  show ?case
  proof (intro allI impI)
    fix r c p'
    assume "parse_ident inFlags p t isConst flags = Ok (r, c, p')"
    note eq = this[unfolded parse_ident.psimps[OF dom]]
    then obtain p1 t1 c1 f1 where sw: "identSwitch p t isConst flags = Ok (p1, t1, c1, f1)"
      and rest: "(if f1 \<noteq> 0 then
           (let p2 = parser_next p1 in
            if tok p2 = IDENT then parse_ident inFlags p2 t1 c1 f1
            else
              (case t1 of
                 Some ty \<Rightarrow> Err (newError p2 ''illegal syntax: multiple types?'')
               | None \<Rightarrow>
                  andThen (lookupType p2 ''int'' f1)
                    (\<lambda>ty. parse_retry inFlags p2 (Some ty) c1 0)))
         else parse_loop inFlags p1 t1 c1 f1) = Ok (r, c, p')"
      by (auto simp: andThen_eq_Ok)
    have le1: "remaining p1 \<le> remaining p" using identSwitch_remaining[OF sw] .
    show "remaining p' \<le> remaining p"
    proof (cases "f1 = 0")
      case True
      with rest have "parse_loop inFlags p1 t1 c1 f1 = Ok (r, c, p')" by simp
      with IH_loop[OF sw refl refl refl] True have "remaining p' \<le> remaining (parser_next p1)" by simp
      then show ?thesis using le1 remaining_next_le[of p1] by simp
    next
      case False
      show ?thesis
      proof (cases "tok (parser_next p1) = IDENT")
        case True
        with rest False have "parse_ident inFlags (parser_next p1) t1 c1 f1 = Ok (r, c, p')"
          by (simp add: Let_def)
        with IH_ident[OF sw refl refl refl False refl True]
        have "remaining p' \<le> remaining (parser_next p1)" by simp
        then show ?thesis using le1 remaining_next_le[of p1] by simp
      next
        case nid: False
        with rest False obtain ty where t1: "t1 = None"
          and lk: "lookupType (parser_next p1) ''int'' f1 = Ok ty"
          and rt: "parse_retry inFlags (parser_next p1) (Some ty) c1 0 = Ok (r, c, p')"
          by (auto simp: Let_def andThen_eq_Ok split: option.splits)
        with IH_retry[OF sw refl refl refl False refl nid t1 lk]
        have "remaining p' \<le> remaining (parser_next p1)" by simp
        then show ?thesis using le1 remaining_next_le[of p1] by simp
      qed
    qed
  qed
next
  case (4 inFlags p ty isConst flags args isRetFn)
  note dom = 4(1) and IH_func = 4(2) and IH_ret = 4(3) and IH_ptr = 4(4) and IH_sig = 4(5)
    and IH_args = 4(6) and IH_next = 4(7) and IH_null = 4(8)
  define p1 where "p1 = parser_next p"
  define p2 where "p2 = parser_next p1"
  have le1: "remaining p1 \<le> remaining p" unfolding p1_def by (rule remaining_next_le)
  have le2: "remaining p2 \<le> remaining p1" unfolding p2_def by (rule remaining_next_le)
  show ?case
  proof (intro allI impI)
    fix r c p'
    assume "parse_nextTok inFlags p ty isConst flags args isRetFn = Ok (r, c, p')"
    note eq = this[unfolded parse_nextTok.psimps[OF dom] Let_def, folded p1_def, folded p2_def]
    consider (rparen) "tok p1 = RPAREN" | (lparen) "tok p1 \<noteq> RPAREN" "tok p1 = LPAREN"
      | (null) "tok p1 \<noteq> RPAREN" "tok p1 \<noteq> LPAREN"
          "tok p1 = IDENT \<and> (lit p1 = ''_Nullable'' \<or> lit p1 = ''_Nonnull'')"
      | (bad) "tok p1 \<noteq> RPAREN" "tok p1 \<noteq> LPAREN"
          "\<not> (tok p1 = IDENT \<and> (lit p1 = ''_Nullable'' \<or> lit p1 = ''_Nonnull''))"
      by blast
    then show "remaining p' \<le> remaining p"
    proof cases
      case rparen
      let ?inner = "if tok p2 = LPAREN then parseFunc ty inFlags p2
           else if tok p2 = LBRACK then parseArrays (Some ty) 0 p2
           else Err (newError p2 (''unexpected '' @ token_String (tok p2)))"
      from eq rparen obtain ty1 p3 where inner: "?inner = Ok (ty1, p3)"
        and rest: "(if isRetFn then
               (if getRetType inFlags then Ok (ty1, isConst, p3\<lparr>tok := EOF\<rparr>)
                else parse_loop inFlags p3 (Some (Signature args [ty1])) isConst flags)
             else if \<not> isSignature ty1 then parse_loop inFlags p3 (Some (Pointer ty1)) isConst flags
             else parse_loop inFlags p3 (Some ty1) isConst flags) = Ok (r, c, p')"
        by (auto simp: andThen_eq_Ok)
      have le3: "remaining p3 \<le> remaining p2"
      proof (cases "tok p2 = LPAREN")
        case True
        with inner have "parseFunc ty inFlags p2 = Ok (ty1, p3)" by simp
        with IH_func[OF p1_def rparen p2_def True] show ?thesis by simp
      next
        case False
        with inner have "parseArrays (Some ty) 0 p2 = Ok (ty1, p3)" by (simp split: if_splits)
        then show ?thesis by (rule parseArrays_remaining)
      qed
      have "remaining p' \<le> remaining p3"
      proof (cases "isRetFn \<and> getRetType inFlags")
        case True
        with rest have "p' = p3\<lparr>tok := EOF\<rparr>" by simp
        then show ?thesis using remaining_tok_EOF[of p3] by simp
      next
        case False
        have "remaining p' \<le> remaining (parser_next p3)"
          using False rest
            IH_ret[OF p1_def rparen p2_def inner refl]
            IH_ptr[OF p1_def rparen p2_def inner refl]
            IH_sig[OF p1_def rparen p2_def inner refl]
          by (auto split: if_splits)
        then show ?thesis using remaining_next_le[of p3] by simp
      qed
      with le1 le2 le3 show ?thesis by simp
    next
      case lparen
      with eq have nr: "\<not> isRetFn" by (auto split: if_splits)
      with eq lparen obtain args1 p3 where a: "parseArgs_loop p1 [] = Ok (args1, p3)"
        and n: "parse_nextTok inFlags p3 ty isConst flags args1 True = Ok (r, c, p')"
        by (auto simp: andThen_eq_Ok)
      from IH_args[OF p1_def lparen nr] a have "remaining p3 \<le> remaining p1" by simp
      moreover from IH_next[OF p1_def lparen nr a refl] n have "remaining p' \<le> remaining p3" by simp
      ultimately show ?thesis using le1 by simp
    next
      case null
      with eq have "parse_nextTok inFlags p1 ty isConst flags args isRetFn = Ok (r, c, p')"
        by auto
      with IH_null[OF p1_def null] have "remaining p' \<le> remaining p1" by simp
      then show ?thesis using le1 by simp
    next
      case bad
      with eq show ?thesis by auto
    qed
  qed
next
  case (5 t inFlags p)
  then show ?case by (auto simp: parseFunc.psimps andThen_eq_Ok)
next
  case (6 p args)
  note dom = 6(1) and IH_loop = 6(2) and IH_args = 6(3)
  show ?case
  proof (intro allI impI)
    fix r p'
    assume "parseArgs_loop p args = Ok (r, p')"
    note eq = this[unfolded parseArgs_loop.psimps[OF dom] Let_def]
    then obtain arg c1 p1 where l: "parse_loop FlagIsParam p None False 0 = Ok (arg, c1, p1)"
      and rest: "(if tok p1 = COMMA then parseArgs_loop p1 (if NotVoid arg then args @ [arg] else args)
         else if tok p1 \<noteq> RPAREN then Err (newError p1 ''expect )'')
         else Ok (if NotVoid arg then args @ [arg] else args, p1)) = Ok (r, p')"
      by (auto simp: andThen_eq_Ok)
    from IH_loop l have le1: "remaining p1 \<le> remaining p"
      using remaining_next_le[of p] by fastforce
    show "remaining p' \<le> remaining p"
    proof (cases "tok p1 = COMMA")
      case True
      with rest IH_args[OF l refl refl refl True] have "remaining p' \<le> remaining p1" by simp
      with le1 show ?thesis by simp
    next
      case False
      with rest have "p' = p1" by (auto split: if_splits)
      with le1 show ?thesis by simp
    qed
  qed
qed

definition parse_measure ::
  "((int \<times> parser \<times> ctype option \<times> bool \<times> int) +
    (int \<times> parser \<times> ctype option \<times> bool \<times> int) +
    (int \<times> parser \<times> ctype option \<times> bool \<times> int)) +
   ((int \<times> parser \<times> ctype \<times> bool \<times> int \<times> ctype list \<times> bool) +
    (ctype \<times> int \<times> parser) +
    (parser \<times> ctype list)) \<Rightarrow> nat" where
  "parse_measure x =
    (case x of
       Inl (Inl (inFlags, p, t, isConst, flags)) \<Rightarrow> 10 * remaining p + 2
     | Inl (Inr (Inl (inFlags, p, t, isConst, flags))) \<Rightarrow>
         (if tok p = EOF then 0 else 10 * remaining p + 4)
     | Inl (Inr (Inr (inFlags, p, t, isConst, flags))) \<Rightarrow> 10 * remaining p + 3
     | Inr (Inl (inFlags, p, ty, isConst, flags, args, isRetFn)) \<Rightarrow> 10 * remaining p + 5
     | Inr (Inr (Inl (t, inFlags, p))) \<Rightarrow> 10 * remaining p + 4
     | Inr (Inr (Inr (p, args))) \<Rightarrow> 10 * remaining p + 3)"

lemma parse_total:
  "All parse_loop_parse_retry_parse_ident_parse_nextTok_parseFunc_parseArgs_loop_dom"
proof (relation "measure parse_measure", goal_cases)
  case 1
  show ?case by simp
next
  case (2 inFlags p t isConst flags)
  show ?case using remaining_next_less[of p] by (auto simp: parse_measure_def)
next
  case (3 inFlags p t isConst flags)
  then show ?case by (auto simp: parse_measure_def)
next
  case (4 inFlags p t isConst flags x2)
  then show ?case by (auto simp: parse_measure_def)
next
  case (5 inFlags p t isConst flags x xa y)
  then show ?case
    using parseArrays_remaining[of t inFlags p xa y] by (auto simp: parse_measure_def)
next
  case (6 inFlags p t isConst flags x2 x y)
  then have "expect2 MUL XOR_tok p = (None, y)" by simp
  from expect2_None[OF this] 6 show ?case
    using remaining_next_less[of p] by (auto simp: parse_measure_def)
next
  case (7 inFlags p t isConst flags x xa y xb ya xc yb xd)
  then have "identSwitch p t isConst flags = Ok (xa, xb, xc, yb)" by simp
  from identSwitch_remaining[OF this] 7 show ?case
    using remaining_next_less[of xa] by (auto simp: parse_measure_def)
next
  case (8 inFlags p t isConst flags x xa y xb ya xc yb xd xe)
  then have "identSwitch p t isConst flags = Ok (xa, xb, xc, yb)" by simp
  from identSwitch_remaining[OF this] 8 show ?case
    using remaining_next_less[of xa] by (auto simp: parse_measure_def)
next
  case (9 inFlags p t isConst flags x xa y xb ya xc yb)
  then have "identSwitch p t isConst flags = Ok (xa, xb, xc, yb)" by simp
  from identSwitch_remaining[OF this] show ?case by (auto simp: parse_measure_def)
next
  case (10 inFlags p ty isConst flags args isRetFn x xa)
  then show ?case
    using remaining_next_le[of p] remaining_next_le[of x] by (auto simp: parse_measure_def)
next
  case (11 inFlags p ty isConst flags args isRetFn x xa xb xc y)
  have "remaining y \<le> remaining xa"
  proof (cases "tok xa = LPAREN")
    case True
    with 11 parse_remaining(5)[of ty inFlags xa] show ?thesis by auto
  next
    case False
    with 11 have "parseArrays (Some ty) 0 xa = Ok (xc, y)" by (simp split: if_splits)
    then show ?thesis by (rule parseArrays_remaining)
  qed
  with 11 show ?case
    using remaining_next_le[of p] remaining_next_le[of x] by (auto simp: parse_measure_def)
next
  case (12 inFlags p ty isConst flags args isRetFn x xa xb xc y)
  have "remaining y \<le> remaining xa"
  proof (cases "tok xa = LPAREN")
    case True
    with 12 parse_remaining(5)[of ty inFlags xa] show ?thesis by auto
  next
    case False
    with 12 have "parseArrays (Some ty) 0 xa = Ok (xc, y)" by (simp split: if_splits)
    then show ?thesis by (rule parseArrays_remaining)
  qed
  with 12 show ?case
    using remaining_next_le[of p] remaining_next_le[of x] by (auto simp: parse_measure_def)
next
  case (13 inFlags p ty isConst flags args isRetFn x xa xb xc y)
  have "remaining y \<le> remaining xa"
  proof (cases "tok xa = LPAREN")
    case True
    with 13 parse_remaining(5)[of ty inFlags xa] show ?thesis by auto
  next
    case False
    with 13 have "parseArrays (Some ty) 0 xa = Ok (xc, y)" by (simp split: if_splits)
    then show ?thesis by (rule parseArrays_remaining)
  qed
  with 13 show ?case
    using remaining_next_le[of p] remaining_next_le[of x] by (auto simp: parse_measure_def)
next
  case (14 inFlags p ty isConst flags args isRetFn x)
  then show ?case using remaining_next_le[of p] by (auto simp: parse_measure_def)
next
  case (15 inFlags p ty isConst flags args isRetFn x xa xb y)
  with parse_remaining(6)[of x "[]"] have "remaining y \<le> remaining x" by auto
  with 15 show ?case
    using remaining_next_less[of p] by (auto simp: parse_measure_def)
next
  case (16 inFlags p ty isConst flags args isRetFn x)
  then show ?case using remaining_next_less[of p] by (auto simp: parse_measure_def)
next
  case (17 t inFlags p)
  show ?case by (auto simp: parse_measure_def)
next
  case (18 p args)
  show ?case by (auto simp: parse_measure_def)
next
  case (19 p args x xa y xb ya xc)
  with parse_remaining(1)[of FlagIsParam p None False 0]
  have le: "remaining ya \<le> remaining (parser_next p)" by auto
  from 19 have "0 < remaining ya" by (simp add: remaining_def)
  with le have "remaining ya < remaining p" using remaining_next_pos[of p] by simp
  then show ?case by (auto simp: parse_measure_def)
qed

termination parse_loop
  by (rule parse_total)

text \<open>The bound on what is left, for every call.\<close>

lemma parse_loop_remaining:
  "parse_loop inFlags p t isConst flags = Ok (r, c, p') \<Longrightarrow>
     remaining p' \<le> remaining (parser_next p)"
  using parse_remaining(1)[of inFlags p t isConst flags] parse_total by blast

lemma parseArgs_loop_remaining:
  "parseArgs_loop p args = Ok (r, p') \<Longrightarrow> remaining p' \<le> remaining p"
  using parse_remaining(6)[of p args] parse_total by blast

declare parse_loop.simps [simp del] parse_retry.simps [simp del] parse_ident.simps [simp del]
  parse_nextTok.simps [simp del] parseFunc.simps [simp del] parseArgs_loop.simps [simp del]

definition parse :: "int \<Rightarrow> parser \<Rightarrow> (ctype \<times> bool \<times> parser) result" where
  "parse inFlags p = parse_loop inFlags p None False 0"

definition parseArgs :: "parser \<Rightarrow> (ctype list \<times> parser) result" where
  "parseArgs p = parseArgs_loop p []"

text \<open>
  \<^verbatim>\<open>ParseType\<close>: a fresh parser on the scanner of the text, one \<^verbatim>\<open>parse\<close>, and the
  check that the parse stopped at the end of the input. \<^verbatim>\<open>ParseType_scanner\<close> is the
  part behind the scanner's \<^verbatim>\<open>Init\<close>.
\<close>

definition ParseType_scanner ::
  "(string \<Rightarrow> ctype option) \<Rightarrow> scanner \<Rightarrow> int \<Rightarrow> (ctype \<times> bool) result" where
  "ParseType_scanner sc scn flags =
     andThen (parse flags \<lparr>s = scn, scope = sc, pos = 0, tok = ILLEGAL, lit = []\<rparr>)
       (\<lambda>(t, isConst, p).
          if tok p \<noteq> EOF then Err (newError p (''unexpect token '' @ token_String (tok p)))
          else Ok (t, isConst))"

definition ParseType ::
  "(string \<Rightarrow> ctype option) \<Rightarrow> string \<Rightarrow> int \<Rightarrow> (ctype \<times> bool) result" where
  "ParseType sc qualType flags = ParseType_scanner sc (scanner_Init qualType) flags"

section \<open>Notions for the statements\<close>

text \<open>A registry that knows \<^verbatim>\<open>void\<close> and \<^verbatim>\<open>char\<close>, and a parser to start from.\<close>

definition registry0 :: "string \<Rightarrow> ctype option" where
  "registry0 = [''void'' \<mapsto> Void, ''char'' \<mapsto> Typ Int8]"

definition parser0 :: "string \<Rightarrow> parser" where
  "parser0 qualType =
     \<lparr>s = scanner_Init qualType, scope = registry0, pos = 0, tok = ILLEGAL, lit = []\<rparr>"

fun isArray :: "ctype \<Rightarrow> bool" where
  "isArray (Array t n) = True"
| "isArray _ = False"

text \<open>
  A parser whose scanner has no end-of-input triple among the triples it has yet to
  deliver: the end of input is what \<^verbatim>\<open>Scan\<close> yields once they are used up.
\<close>

definition noEOF :: "parser \<Rightarrow> bool" where
  "noEOF p \<longleftrightarrow> list_all (\<lambda>x. fst (snd x) \<noteq> EOF) (toks (s p))"

text \<open>
  The shape of what a call ends in: a value, a returned error other than
  \<^verbatim>\<open>ErrInvalidType\<close>, or one of the three \<^verbatim>\<open>log.Fatalln\<close> messages, and no panic.
  Qualifier flags are in order when they stay within the six flag bits.
\<close>

definition fatalMessages :: "string list" where
  "fatalMessages =
    [''lookupType: TODO - invalid type'',
     ''c.types.ParseType: struct/union - TODO'',
     ''c.types.ParseType: unknown'']"

fun shape :: "'a result \<Rightarrow> bool" where
  "shape (Ok x) = True"
| "shape (Err e) = (e \<noteq> ErrInvalidType)"
| "shape (Fatal m) = (m \<in> set fatalMessages)"
| "shape (Panic m) = False"

definition flagsOk :: "int \<Rightarrow> bool" where
  "flagsOk flags \<longleftrightarrow> 0 \<le> flags \<and> flags < 64"

text \<open>
  A parser whose scanner reports another text, and a result with another text in its
  errors and in the parser it returns.
\<close>

definition with_src :: "string \<Rightarrow> parser \<Rightarrow> parser" where
  "with_src x p = p\<lparr>s := (s p)\<lparr>src := x\<rparr>\<rparr>"

fun err_src :: "string \<Rightarrow> error \<Rightarrow> error" where
  "err_src x (ParseTypeError q ps m) = ParseTypeError x ps m"
| "err_src x e = e"

fun map_src :: "string \<Rightarrow> ('a \<Rightarrow> 'b) \<Rightarrow> 'a result \<Rightarrow> 'b result" where
  "map_src x g (Ok v) = Ok (g v)"
| "map_src x g (Err e) = Err (err_src x e)"
| "map_src x g (Fatal m) = Fatal m"
| "map_src x g (Panic m) = Panic m"

definition src3 :: "string \<Rightarrow> ctype \<times> bool \<times> parser \<Rightarrow> ctype \<times> bool \<times> parser" where
  "src3 x = (\<lambda>(t, c, p). (t, c, with_src x p))"

definition src2 :: "string \<Rightarrow> 'a \<times> parser \<Rightarrow> 'a \<times> parser" where
  "src2 x = (\<lambda>(a, p). (a, with_src x p))"

definition src4 ::
  "string \<Rightarrow> parser \<times> ctype option \<times> bool \<times> int \<Rightarrow> parser \<times> ctype option \<times> bool \<times> int" where
  "src4 x = (\<lambda>(p, t, c, f). (with_src x p, t, c, f))"

text \<open>
  The outcomes of \<^verbatim>\<open>ParseType\<close> on a text: a value; a \<^verbatim>\<open>ParseTypeError\<close> that carries
  that text; the bare errors \<^verbatim>\<open>ErrNotFound\<close> and \<^verbatim>\<open>io.ErrUnexpectedEOF\<close>; or the end of
  the process with one of the three \<^verbatim>\<open>log.Fatalln\<close> messages.
\<close>

definition documented :: "string \<Rightarrow> 'a result \<Rightarrow> bool" where
  "documented S r =
    (case r of
       Ok v \<Rightarrow> True
     | Err e \<Rightarrow>
        (case e of
           ParseTypeError q ps msg \<Rightarrow> q = S
         | ErrNotFound \<Rightarrow> True
         | ErrInvalidType \<Rightarrow> False
         | ErrUnexpectedEOF \<Rightarrow> True)
     | Fatal m \<Rightarrow> m \<in> set fatalMessages
     | Panic m \<Rightarrow> False)"

definition qualifierWords :: "string list" where
  "qualifierWords =
    [''unsigned'', ''short'', ''long'', ''signed'', ''const'', ''_Complex'',
     ''volatile'', ''restrict'', ''_Nullable'', ''_Nonnull'']"

definition isQualifier :: "lexeme \<Rightarrow> bool" where
  "isQualifier x \<longleftrightarrow> fst (snd x) = IDENT \<and> snd (snd x) \<in> set qualifierWords"

text \<open>What a qualifier keyword does to the constness and the qualifier flags.\<close>

definition qualStep :: "string \<Rightarrow> bool \<times> int \<Rightarrow> bool \<times> int" where
  "qualStep w cf =
    (if w = ''unsigned'' then (fst cf, snd cf OR flagUnsigned)
     else if w = ''short'' then (fst cf, snd cf OR flagShort)
     else if w = ''long'' then
       (fst cf, if (snd cf AND flagLong) \<noteq> 0 then snd cf OR flagLongLong else snd cf OR flagLong)
     else if w = ''signed'' then (fst cf, snd cf OR flagSigned)
     else if w = ''const'' then (True, snd cf)
     else if w = ''_Complex'' then (fst cf, snd cf OR flagComplex)
     else cf)"

text \<open>
  The part of the identifier case behind its \<^verbatim>\<open>switch\<close>: with flags pending, read on
  and go back to the label \<^verbatim>\<open>ident\<close> on an identifier, else settle the flags against
  \<^verbatim>\<open>int\<close> and go to \<^verbatim>\<open>retry\<close>; with no flags pending, the next round of the loop.
\<close>

definition afterSwitch ::
  "int \<Rightarrow> parser \<Rightarrow> ctype option \<Rightarrow> bool \<Rightarrow> int \<Rightarrow> (ctype \<times> bool \<times> parser) result" where
  "afterSwitch inFlags p1 t1 isConst1 flags1 =
    (if flags1 \<noteq> 0 then
       (let p2 = parser_next p1 in
        if tok p2 = IDENT then parse_ident inFlags p2 t1 isConst1 flags1
        else
          (case t1 of
             Some ty \<Rightarrow> Err (newError p2 ''illegal syntax: multiple types?'')
           | None \<Rightarrow>
              andThen (lookupType p2 ''int'' flags1)
                (\<lambda>ty. parse_retry inFlags p2 (Some ty) isConst1 0)))
     else parse_loop inFlags p1 t1 isConst1 flags1)"

text \<open>The result of a parse with the text blanked in its errors.\<close>

definition withoutSource :: "'a result \<Rightarrow> 'a result" where
  "withoutSource r = map_src [] id r"

section \<open>Evaluating the parser\<close>

text \<open>
  The equations that evaluate a parse, and the rule that keeps the simplifier out of
  the continuation until the first step has a value.
\<close>

lemma andThen_weak_cong: "r = r' \<Longrightarrow> andThen r f = andThen r' f"
  by simp

lemmas scan_simps =
  scanner_Init_def isLetter_def isDecimal_def isIdentChar_def isBlank_def symbolToken_def

lemmas flag_simps =
  isParam_def getRetType_def FlagIsParam_def FlagGetRetType_def
  flagShort_def flagLong_def flagLongLong_def flagUnsigned_def flagSigned_def flagComplex_def

lemmas parse_simps =
  ParseType_def ParseType_scanner_def parse_def parseArgs_def
  parse_loop.simps parse_retry.simps parse_ident.simps parse_nextTok.simps
  parseFunc.simps parseArgs_loop.simps parseArrays.simps parseArray_def
  identSwitch_def lookupType_def parser_next_def Scan_def expect_def expect2_def
  newError_def Source_def newPointer_def NotVoid_def intTypes_def
  ParseInt_def digitVal_def Let_def flag_simps

section \<open>Bits of the qualifier flags\<close>

lemma and_not_signed_complex:
  "(flags AND NOT flagSigned) AND flagComplex = (flags AND flagComplex) AND NOT flagSigned"
  by (simp add: ac_simps)

lemma and_not_signed_idem:
  "(flags AND NOT flagSigned) AND NOT flagSigned = flags AND NOT flagSigned"
  by (simp add: and.assoc)

lemma bit_16_iff: "bit (16::int) n \<longleftrightarrow> n = 4"
  using bit_exp_iff[where ?'a = int, of 4 n] by simp

lemma and_16_cases: "(flags::int) AND 16 = 0 \<or> flags AND 16 = 16"
proof (cases "bit flags 4")
  case True
  have "flags AND 16 = 16"
    by (rule bit_eqI) (use True in \<open>auto simp: bit_and_iff bit_16_iff\<close>)
  then show ?thesis by simp
next
  case False
  have "flags AND 16 = 0"
    by (rule bit_eqI) (use False in \<open>auto simp: bit_and_iff bit_16_iff\<close>)
  then show ?thesis by simp
qed

lemma split_at_16: "(flags::int) = (flags AND NOT 16) OR (flags AND 16)"
  by (simp add: bit_eq_iff bit_simps) blast

lemma and_not_signed_zero:
  "flags AND NOT flagSigned = 0 \<Longrightarrow> flags = 0 \<or> flags = flagSigned"
  using split_at_16[of flags] and_16_cases[of flags] by (auto simp: flagSigned_def)

section \<open>The shape of an outcome\<close>

text \<open>
  The qualifier flags stay within the six flag bits, so the index into \<^verbatim>\<open>intTypes\<close>
  stays within its sixteen entries and no call panics; \<^verbatim>\<open>ErrInvalidType\<close> is never
  returned.
\<close>

lemma shape_andThen:
  "shape r \<Longrightarrow> (\<And>x. r = Ok x \<Longrightarrow> shape (f x)) \<Longrightarrow> shape (andThen r f)"
  by (cases r) auto

lemma intTypes_index:
  assumes "flagsOk f" and "f AND flagComplex = 0"
  shows "\<not> (f AND NOT flagSigned < 0 \<or> int (length intTypes) \<le> f AND NOT flagSigned)"
proof -
  have tb: "take_bit 6 f = f"
    using assms(1) by (simp add: take_bit_int_eq_self flagsOk_def)
  have n5: "\<not> bit f 5"
    using assms(2) and_exp_eq_0_iff_not_bit[of f 5] by (simp add: flagComplex_def)
  have hi: "n < 6" if "bit f n" for n
    using that tb bit_take_bit_iff[of 6 f n] by simp
  have "f AND NOT 16 = take_bit 4 f"
  proof (rule bit_eqI)
    fix n
    show "bit (f AND NOT 16) n = bit (take_bit 4 f) n"
    proof (cases "bit f n")
      case True
      from hi[OF True] n5 True have "n \<noteq> 5" "n < 6" by auto
      then have "n \<noteq> 4 \<longleftrightarrow> n < 4" by auto
      have "bit (f AND NOT 16) n \<longleftrightarrow> bit f n \<and> n \<noteq> 4"
        by (simp only: bit_and_iff bit_not_iff bit_16_iff possible_bit_int simp_thms)
      with True \<open>n \<noteq> 4 \<longleftrightarrow> n < 4\<close> show ?thesis by (simp add: bit_take_bit_iff)
    next
      case False
      then show ?thesis by (simp only: bit_and_iff bit_take_bit_iff simp_thms)
    qed
  qed
  moreover have "take_bit 4 f < 2 ^ 4" by (rule take_bit_int_less_exp)
  moreover have "0 \<le> take_bit 4 f" by simp
  moreover have "int (length intTypes) = 2 ^ 4" by (simp add: intTypes_def)
  ultimately show ?thesis by (simp only: flagSigned_def) linarith
qed

lemma shape_intTypes:
  "shape (case intTypes ! n of Some t \<Rightarrow> Ok t | None \<Rightarrow> Fatal ''lookupType: TODO - invalid type'')"
  by (cases "intTypes ! n") (simp_all add: fatalMessages_def)

lemma shape_lookupType: "flagsOk flags \<Longrightarrow> shape (lookupType p lt flags)"
proof -
  assume f: "flagsOk flags"
  show ?thesis
  proof (cases "flags \<noteq> 0 \<and> flags AND flagComplex = 0 \<and> lt = ''int''")
    case True
    with intTypes_index[OF f]
    have i: "\<not> (flags AND NOT flagSigned < 0 \<or> int (length intTypes) \<le> flags AND NOT flagSigned)"
      by blast
    have "lookupType p lt flags =
       (case intTypes ! nat (flags AND NOT flagSigned) of Some t \<Rightarrow> Ok t
        | None \<Rightarrow> Fatal ''lookupType: TODO - invalid type'')"
      unfolding lookupType_def Let_def using True i by (simp only: if_True if_False simp_thms)
    then show ?thesis using shape_intTypes by simp
  next
    case False
    then consider (zero) "flags = 0" | (complex) "flags \<noteq> 0" "flags AND flagComplex \<noteq> 0"
      | (other) "flags \<noteq> 0" "flags AND flagComplex = 0" "lt \<noteq> ''int''"
      by blast
    then show ?thesis
    proof cases
      case zero
      then show ?thesis by (simp add: lookupType_def split: option.splits)
    next
      case complex
      then show ?thesis by (simp add: lookupType_def fatalMessages_def)
    next
      case other
      then show ?thesis by (simp add: lookupType_def fatalMessages_def)
    qed
  qed
qed

lemma flagsOk_or: "flagsOk f \<Longrightarrow> flagsOk g \<Longrightarrow> flagsOk (f OR g)"
  unfolding flagsOk_def using OR_upper[of f 6 g] by simp

lemma flagsOk_consts:
  "flagsOk 0" "flagsOk flagShort" "flagsOk flagLong" "flagsOk flagLongLong"
  "flagsOk flagUnsigned" "flagsOk flagSigned" "flagsOk flagComplex"
  by (simp_all add: flagsOk_def flag_simps)

lemma identSwitch_flagsOk:
  "flagsOk flags \<Longrightarrow> identSwitch p t isConst flags = Ok (p1, t1, c1, f1) \<Longrightarrow> flagsOk f1"
  unfolding identSwitch_def Let_def
  by (auto simp: andThen_eq_Ok flagsOk_or flagsOk_consts split: if_splits option.splits)

lemma shape_identSwitch: "flagsOk flags \<Longrightarrow> shape (identSwitch p t isConst flags)"
  unfolding identSwitch_def Let_def
  by (auto simp: fatalMessages_def newError_def intro!: shape_andThen shape_lookupType
      split: option.splits)

lemma shape_parseArray: "shape (parseArray t inFlags p)"
  unfolding parseArray_def Let_def expect_def
  by (auto simp: newError_def intro!: shape_andThen split: option.splits sum.splits)

lemma shape_parseArrays: "shape (parseArrays t inFlags p)"
proof (induction t inFlags p rule: parseArrays.induct)
  case (1 t inFlags p)
  show ?case
    by (subst parseArrays.simps) (auto intro!: shape_andThen shape_parseArray simp: Let_def 1)
qed

lemma parse_shape:
  "flagsOk flags \<Longrightarrow> shape (parse_loop inFlags p t isConst flags)"
  "flagsOk flags \<Longrightarrow> shape (parse_retry inFlags p t isConst flags)"
  "flagsOk flags \<Longrightarrow> shape (parse_ident inFlags p t isConst flags)"
  "flagsOk flags \<Longrightarrow> shape (parse_nextTok inFlags p ty isConst flags args isRetFn)"
  "shape (parseFunc ty inFlags p)"
  "shape (parseArgs_loop p args)"
proof (induct inFlags p t isConst flags and inFlags p t isConst flags and inFlags p t isConst flags
    and inFlags p ty isConst flags args isRetFn and ty inFlags p and p args
    rule: parse_loop_parse_retry_parse_ident_parse_nextTok_parseFunc_parseArgs_loop.induct)
  case (1 inFlags p t isConst flags)
  then show ?case by (simp add: parse_loop.simps)
next
  case (2 inFlags p t isConst flags)
  then show ?case
    apply (subst parse_retry.simps)
    apply (auto intro!: shape_andThen shape_parseArrays simp: fatalMessages_def newError_def expect2_def Let_def
        split: option.splits prod.splits if_splits)
    done
next
  case (3 inFlags p t isConst flags)
  note IH_ident = 3(1) and IH_retry = 3(2) and IH_loop = 3(3) and fl = 3(4)
  show ?case
  proof (subst parse_ident.simps, rule shape_andThen)
    show "shape (identSwitch p t isConst flags)" using fl by (rule shape_identSwitch)
  next
    fix x
    assume sw0: "identSwitch p t isConst flags = Ok x"
    obtain p1 t1 c1 f1 where x: "x = (p1, t1, c1, f1)" by (cases x) auto
    note sw = sw0[unfolded x]
    have f1: "flagsOk f1" using identSwitch_flagsOk[OF fl sw] .
    have "shape (if f1 \<noteq> 0 then
           (let p2 = parser_next p1 in
            if tok p2 = IDENT then parse_ident inFlags p2 t1 c1 f1
            else
              (case t1 of
                 Some ty \<Rightarrow> Err (newError p2 ''illegal syntax: multiple types?'')
               | None \<Rightarrow>
                  andThen (lookupType p2 ''int'' f1)
                    (\<lambda>ty. parse_retry inFlags p2 (Some ty) c1 0)))
         else parse_loop inFlags p1 t1 c1 f1)"
    proof (cases "f1 = 0")
      case True
      with IH_loop[OF sw refl refl refl _ f1] show ?thesis by simp
    next
      case nz: False
      show ?thesis
      proof (cases "tok (parser_next p1) = IDENT")
        case True
        with nz IH_ident[OF sw refl refl refl nz refl True f1] show ?thesis by (simp add: Let_def)
      next
        case False
        show ?thesis
        proof (cases t1)
          case None
          have "shape (andThen (lookupType (parser_next p1) ''int'' f1)
                    (\<lambda>ty. parse_retry inFlags (parser_next p1) (Some ty) c1 0))"
            using IH_retry[OF sw refl refl refl nz refl False None] f1
            by (auto intro!: shape_andThen shape_lookupType simp: flagsOk_consts)
          with nz False None show ?thesis by (simp add: Let_def)
        next
          case (Some a)
          with nz False show ?thesis by (simp add: Let_def newError_def)
        qed
      qed
    qed
    then show "shape (case x of (p1, t1, isConst1, flags1) \<Rightarrow>
         if flags1 \<noteq> 0 then
           (let p2 = parser_next p1 in
            if tok p2 = IDENT then parse_ident inFlags p2 t1 isConst1 flags1
            else
              (case t1 of
                 Some ty \<Rightarrow> Err (newError p2 ''illegal syntax: multiple types?'')
               | None \<Rightarrow>
                  andThen (lookupType p2 ''int'' flags1)
                    (\<lambda>ty. parse_retry inFlags p2 (Some ty) isConst1 0)))
         else parse_loop inFlags p1 t1 isConst1 flags1)"
      by (simp add: x)
  qed
next
  case (4 inFlags p ty isConst flags args isRetFn)
  then show ?case
    apply (subst parse_nextTok.simps)
    apply (auto intro!: shape_andThen shape_parseArrays simp: newError_def Let_def split: option.splits)
    done
next
  case (5 t inFlags p)
  then show ?case by (subst parseFunc.simps) (auto intro!: shape_andThen)
next
  case (6 p args)
  then show ?case
    apply (subst parseArgs_loop.simps)
    apply (auto intro!: shape_andThen simp: newError_def Let_def flagsOk_consts)
    done
qed

section \<open>The source text of a parse\<close>

text \<open>
  The text the scanner reports is only ever copied into errors: a parse on a scanner
  that reports another text takes the same steps, returns the same value and the same
  errors, with that other text in them.
\<close>

lemma with_src_simps [simp]:
  "tok (with_src x p) = tok p" "lit (with_src x p) = lit p" "pos (with_src x p) = pos p"
  "scope (with_src x p) = scope p"
  "toks (s (with_src x p)) = toks (s p)" "src (s (with_src x p)) = x"
  "eofPos (s (with_src x p)) = eofPos (s p)"
  "with_src x (p\<lparr>tok := tk\<rparr>) = (with_src x p)\<lparr>tok := tk\<rparr>"
  by (simp_all add: with_src_def)

lemma next_with_src [simp]: "parser_next (with_src x p) = with_src x (parser_next p)"
  by (simp add: parser_next_def Scan_def with_src_def split: list.splits prod.splits)

lemma newError_with_src [simp]: "newError (with_src x p) m = ParseTypeError x (pos p) m"
  by (simp add: newError_def Source_def)

lemma err_src_newError [simp]: "err_src x (newError p m) = ParseTypeError x (pos p) m"
  by (simp add: newError_def)

lemma lookupType_with_src [simp]: "lookupType (with_src x p) lt f = lookupType p lt f"
  by (simp add: lookupType_def)

lemma map_src_lookupType: "map_src x g (lookupType p lt f) = andThen (lookupType p lt f) (\<lambda>t. Ok (g t))"
  by (auto simp: lookupType_def Let_def split: option.splits)

lemma andThen_map_src:
  "andThen (map_src x g r) f' =
    (case r of Ok v \<Rightarrow> f' (g v) | Err e \<Rightarrow> Err (err_src x e) | Fatal m \<Rightarrow> Fatal m | Panic m \<Rightarrow> Panic m)"
  by (cases r) auto

lemma map_src_andThen:
  "map_src x g (andThen r f) =
    (case r of Ok v \<Rightarrow> map_src x g (f v) | Err e \<Rightarrow> Err (err_src x e) | Fatal m \<Rightarrow> Fatal m | Panic m \<Rightarrow> Panic m)"
  by (cases r) auto

lemma parseArray_with_src:
  "parseArray t inFlags (with_src x p) = map_src x (src2 x) (parseArray t inFlags p)"
  unfolding parseArray_def Let_def expect_def
  by (auto simp: src2_def split: option.splits sum.splits)

lemma parseArrays_with_src:
  "parseArrays t inFlags (with_src x p) = map_src x (src2 x) (parseArrays t inFlags p)"
proof (induction t inFlags p rule: parseArrays.induct)
  case (1 t inFlags p)
  show ?case
    apply (subst parseArrays.simps)
    apply (subst (2) parseArrays.simps)
    apply (simp add: parseArray_with_src andThen_map_src map_src_andThen Let_def src2_def
        split: result.splits)
    using 1 by (auto simp: src2_def)
qed

lemma lookupType_ErrD: "lookupType p lt f = Err e \<Longrightarrow> e = ErrNotFound"
  by (auto simp: lookupType_def Let_def split: if_splits option.splits)

lemma identSwitch_with_src:
  "identSwitch (with_src x p) t isConst flags = map_src x (src4 x) (identSwitch p t isConst flags)"
  unfolding identSwitch_def Let_def
  by (auto simp: src4_def andThen_map_src map_src_andThen dest!: lookupType_ErrD
      split: option.splits result.splits)

lemma expect2_with_src:
  "expect2 a b (with_src x p) =
    (case expect2 a b p of (e, p1) \<Rightarrow> (map_option (err_src x) e, with_src x p1))"
  by (simp add: expect2_def Let_def)

lemma parse_with_src:
  "parse_loop inFlags (with_src x p) t isConst flags
     = map_src x (src3 x) (parse_loop inFlags p t isConst flags)"
  "parse_retry inFlags (with_src x p) t isConst flags
     = map_src x (src3 x) (parse_retry inFlags p t isConst flags)"
  "parse_ident inFlags (with_src x p) t isConst flags
     = map_src x (src3 x) (parse_ident inFlags p t isConst flags)"
  "parse_nextTok inFlags (with_src x p) ty isConst flags args isRetFn
     = map_src x (src3 x) (parse_nextTok inFlags p ty isConst flags args isRetFn)"
  "parseFunc ty inFlags (with_src x p) = map_src x (src2 x) (parseFunc ty inFlags p)"
  "parseArgs_loop (with_src x p) args = map_src x (src2 x) (parseArgs_loop p args)"
proof (induct inFlags p t isConst flags and inFlags p t isConst flags and inFlags p t isConst flags
    and inFlags p ty isConst flags args isRetFn and ty inFlags p and p args
    rule: parse_loop_parse_retry_parse_ident_parse_nextTok_parseFunc_parseArgs_loop.induct)
  case (1 inFlags p t isConst flags)
  then show ?case by (simp add: parse_loop.simps)
next
  case (2 inFlags p t isConst flags)
  show ?case
    apply (simp only: parse_retry.simps[of inFlags "with_src x p"] parse_retry.simps[of inFlags p])
    using 2
    apply (auto simp: parseArrays_with_src andThen_map_src map_src_andThen expect2_with_src src3_def src2_def
        split: option.splits result.splits prod.splits)
    done
next
  case (3 inFlags p t isConst flags)
  show ?case
    apply (simp only: parse_ident.simps[of inFlags "with_src x p"] parse_ident.simps[of inFlags p])
    using 3
    apply (auto simp: identSwitch_with_src andThen_map_src map_src_andThen src3_def src4_def Let_def
        dest!: lookupType_ErrD split: option.splits result.splits prod.splits)
    done
next
  case (4 inFlags p ty isConst flags args isRetFn)
  show ?case
    apply (simp only: parse_nextTok.simps[of inFlags "with_src x p"] parse_nextTok.simps[of inFlags p])
    using 4
    apply (auto simp: parseArrays_with_src andThen_map_src map_src_andThen src3_def src2_def Let_def
        split: option.splits result.splits prod.splits)
    done
next
  case (5 t inFlags p)
  show ?case
    apply (simp only: parseFunc.simps[of t inFlags "with_src x p"] parseFunc.simps[of t inFlags p])
    using 5
    apply (auto simp: andThen_map_src map_src_andThen src2_def split: result.splits)
    done
next
  case (6 p args)
  note IH_loop = 6(1) and IH_args = 6(2)
  show ?case
  proof (cases "parse_loop FlagIsParam p None False 0")
    case (Ok v)
    obtain arg c1 p1 where v: "v = (arg, c1, p1)" by (cases v) auto
    note l = Ok[unfolded v]
    have l': "parse_loop FlagIsParam (with_src x p) None False 0 = Ok (arg, c1, with_src x p1)"
      using IH_loop l by (simp add: src3_def)
    show ?thesis
    proof (cases "tok p1 = COMMA")
      case True
      from IH_args[OF l refl refl refl True] True l l' show ?thesis
        by (simp add: parseArgs_loop.simps[of "with_src x p"] parseArgs_loop.simps[of p] Let_def)
    next
      case False
      with l l' show ?thesis
        by (simp add: parseArgs_loop.simps[of "with_src x p"] parseArgs_loop.simps[of p] Let_def src2_def)
    qed
  next
    case (Err e)
    with IH_loop show ?thesis
      by (simp add: parseArgs_loop.simps[of "with_src x p"] parseArgs_loop.simps[of p])
  next
    case (Fatal m)
    with IH_loop show ?thesis
      by (simp add: parseArgs_loop.simps[of "with_src x p"] parseArgs_loop.simps[of p])
  next
    case (Panic m)
    with IH_loop show ?thesis
      by (simp add: parseArgs_loop.simps[of "with_src x p"] parseArgs_loop.simps[of p])
  qed
qed

section \<open>What an argument list returns\<close>

lemma parseArgs_loop_result:
  "parseArgs_loop p args = Ok (r, p') \<Longrightarrow>
     tok p' = RPAREN \<and> take (length args) r = args \<and> Void \<notin> set (drop (length args) r)"
proof (induction "remaining p" arbitrary: p args rule: less_induct)
  case less
  from less.prems obtain arg c1 p1 where l: "parse_loop FlagIsParam p None False 0 = Ok (arg, c1, p1)"
    and rest: "(if tok p1 = COMMA then parseArgs_loop p1 (if NotVoid arg then args @ [arg] else args)
         else if tok p1 \<noteq> RPAREN then Err (newError p1 ''expect )'')
         else Ok (if NotVoid arg then args @ [arg] else args, p1)) = Ok (r, p')"
    by (subst (asm) parseArgs_loop.simps) (auto simp: andThen_eq_Ok Let_def)
  let ?args1 = "if NotVoid arg then args @ [arg] else args"
  have a1: "take (length args) ?args1 = args \<and> Void \<notin> set (drop (length args) ?args1)"
    by (simp add: NotVoid_def)
  show ?case
  proof (cases "tok p1 = COMMA")
    case True
    then have "0 < remaining p1" by (simp add: remaining_def)
    with parse_loop_remaining[OF l] remaining_next_pos[of p]
    have lt: "remaining p1 < remaining p" by simp
    from rest True have "parseArgs_loop p1 ?args1 = Ok (r, p')" by simp
    from less.hyps[OF lt this]
    have r: "tok p' = RPAREN" "take (length ?args1) r = ?args1"
      "Void \<notin> set (drop (length ?args1) r)"
      by simp_all
    show ?thesis
    proof (cases "NotVoid arg")
      case nv: True
      with r have t: "take (Suc (length args)) r = args @ [arg]"
        and d: "Void \<notin> set (drop (Suc (length args)) r)" by simp_all
      have "take (length args) r = take (length args) (take (Suc (length args)) r)"
        by (simp add: min_def)
      with t have tk: "take (length args) r = args" by simp
      have "r = (args @ [arg]) @ drop (Suc (length args)) r"
        using t append_take_drop_id[of "Suc (length args)" r] by simp
      then have "drop (length args) r = drop (length args) ((args @ [arg]) @ drop (Suc (length args)) r)"
        by simp
      then have dr: "drop (length args) r = arg # drop (Suc (length args)) r" by simp
      from tk dr show ?thesis using r(1) d nv by (simp add: NotVoid_def)
    next
      case False
      with r show ?thesis by simp
    qed
  next
    case False
    with rest have "tok p1 = RPAREN" "r = ?args1" "p' = p1" by (auto split: if_splits)
    with a1 show ?thesis by simp
  qed
qed

section \<open>Errors carry the text of the scanner\<close>

lemma with_src_same: "with_src (src (s p)) p = p"
  by (simp add: with_src_def)

lemma parse_loop_src:
  "parse_loop inFlags p t isConst flags
     = map_src (src (s p)) (src3 (src (s p))) (parse_loop inFlags p t isConst flags)"
  using parse_with_src(1)[of inFlags "src (s p)" p t isConst flags] by (simp add: with_src_same)

lemma documented_parse_loop:
  assumes "flagsOk flags"
  shows "documented (src (s p)) (parse_loop inFlags p t isConst flags)"
    and "parse_loop inFlags p t isConst flags = Ok (ty, c, p1) \<Longrightarrow> src (s p1) = src (s p)"
proof -
  let ?r = "parse_loop inFlags p t isConst flags"
  have sh: "shape ?r" using assms by (rule parse_shape(1))
  have eq: "?r = map_src (src (s p)) (src3 (src (s p))) ?r" by (rule parse_loop_src)
  show "documented (src (s p)) ?r"
  proof (cases ?r)
    case (Err e)
    with eq have "e = err_src (src (s p)) e" by simp
    with sh Err show ?thesis by (cases e) (auto simp: documented_def)
  qed (use sh in \<open>auto simp: documented_def\<close>)
  show "src (s p1) = src (s p)" if "?r = Ok (ty, c, p1)"
  proof -
    from eq that have "(ty, c, p1) = src3 (src (s p)) (ty, c, p1)" by simp
    then have "p1 = with_src (src (s p)) p1" by (simp add: src3_def)
    then have "src (s p1) = src (s (with_src (src (s p)) p1))" by simp
    then show ?thesis by simp
  qed
qed

section \<open>Qualifier keywords in front\<close>

lemma identSwitch_qualifier:
  "lit p \<in> set qualifierWords \<Longrightarrow>
     identSwitch p t isConst flags
       = Ok (p, t, fst (qualStep (lit p) (isConst, flags)), snd (qualStep (lit p) (isConst, flags)))"
  by (auto simp: qualifierWords_def identSwitch_def qualStep_def)

lemma or_and_flagLong:
  "k AND flagLong = 0 \<Longrightarrow> (f OR k) AND flagLong = f AND flagLong"
  by (simp add: bit.conj_disj_distrib2)

lemma flag_and_flagLong:
  "flagUnsigned AND flagLong = 0" "flagShort AND flagLong = 0" "flagSigned AND flagLong = 0"
  "flagComplex AND flagLong = 0" "flagLongLong AND flagLong = 0"
  by (simp_all add: flag_simps)

lemma or_swap: "(f OR a) OR b = (f OR b) OR (a::int)"
  by (simp add: ac_simps)

lemma qualStep_commute: "qualStep a \<circ> qualStep b = qualStep b \<circ> qualStep a"
proof (rule ext)
  fix cf :: "bool \<times> int"
  obtain c f where cf: "cf = (c, f)" by (cases cf)
  show "(qualStep a \<circ> qualStep b) cf = (qualStep b \<circ> qualStep a) cf"
    unfolding cf comp_def qualStep_def
    by (simp add: or_and_flagLong flag_and_flagLong or_swap[of f])
qed

lemma fold_qualStep:
  "mset ws = mset ws' \<Longrightarrow> fold qualStep ws cf = fold qualStep ws' cf"
  using fold_multiset_equiv[of ws qualStep ws'] qualStep_commute by simp

lemma parse_ident_afterSwitch:
  "parse_ident inFlags p t isConst flags =
     andThen (identSwitch p t isConst flags)
       (\<lambda>(p1, t1, isConst1, flags1). afterSwitch inFlags p1 t1 isConst1 flags1)"
  unfolding afterSwitch_def by (rule parse_ident.simps)

lemma parse_ident_qualifier:
  "lit p \<in> set qualifierWords \<Longrightarrow>
     parse_ident inFlags p t isConst flags
       = afterSwitch inFlags p t (fst (qualStep (lit p) (isConst, flags)))
           (snd (qualStep (lit p) (isConst, flags)))"
  by (simp add: parse_ident_afterSwitch identSwitch_qualifier split_beta)

lemma afterSwitch_next:
  assumes "tok (parser_next p) = IDENT" and "lit (parser_next p) \<in> set qualifierWords"
  shows "afterSwitch inFlags p t isConst flags
    = afterSwitch inFlags (parser_next p) t
        (fst (qualStep (lit (parser_next p)) (isConst, flags)))
        (snd (qualStep (lit (parser_next p)) (isConst, flags)))"
proof (cases "flags = 0")
  case True
  then have "afterSwitch inFlags p t isConst flags = parse_ident inFlags (parser_next p) t isConst flags"
    using assms(1) by (simp add: afterSwitch_def parse_loop.simps parse_retry.simps)
  then show ?thesis using assms(2) by (simp add: parse_ident_qualifier)
next
  case False
  then have "afterSwitch inFlags p t isConst flags = parse_ident inFlags (parser_next p) t isConst flags"
    using assms(1) by (simp add: afterSwitch_def Let_def)
  then show ?thesis using assms(2) by (simp add: parse_ident_qualifier)
qed

lemma afterSwitch_cong_next:
  "parser_next p = parser_next p' \<Longrightarrow>
     afterSwitch inFlags p t isConst flags = afterSwitch inFlags p' t isConst flags"
  by (simp add: afterSwitch_def parse_loop.simps Let_def)

lemma afterSwitch_qualifiers:
  assumes "list_all isQualifier q" and "toks (s p) = q @ rest"
  shows "\<exists>p'. afterSwitch inFlags p t isConst flags
            = afterSwitch inFlags p' t
                (fst (fold qualStep (map (\<lambda>x. snd (snd x)) q) (isConst, flags)))
                (snd (fold qualStep (map (\<lambda>x. snd (snd x)) q) (isConst, flags)))
          \<and> toks (s p') = rest \<and> src (s p') = src (s p) \<and> eofPos (s p') = eofPos (s p)
          \<and> scope p' = scope p"
  using assms
proof (induction q arbitrary: p isConst flags)
  case Nil
  then show ?case by auto
next
  case (Cons x q)
  obtain ps tk lt where x: "x = (ps, tk, lt)" by (cases x)
  from Cons.prems(1) have qx: "isQualifier x" and q: "list_all isQualifier q" by simp_all
  from qx x have tk: "tk = IDENT" and lt: "lt \<in> set qualifierWords"
    by (simp_all add: isQualifier_def)
  from Cons.prems(2) x have n: "tok (parser_next p) = tk" "lit (parser_next p) = lt"
    "toks (s (parser_next p)) = q @ rest" "src (s (parser_next p)) = src (s p)"
    "eofPos (s (parser_next p)) = eofPos (s p)" "scope (parser_next p) = scope p"
    by (simp_all add: parser_next_def Scan_def)
  let ?c = "fst (qualStep lt (isConst, flags))" and ?f = "snd (qualStep lt (isConst, flags))"
  have step: "afterSwitch inFlags p t isConst flags = afterSwitch inFlags (parser_next p) t ?c ?f"
    using afterSwitch_next[of p inFlags t isConst flags] n tk lt by simp
  from Cons.IH[OF q n(3), of ?c ?f] obtain p' where
    p': "afterSwitch inFlags (parser_next p) t ?c ?f
            = afterSwitch inFlags p' t
                (fst (fold qualStep (map (\<lambda>x. snd (snd x)) q) (?c, ?f)))
                (snd (fold qualStep (map (\<lambda>x. snd (snd x)) q) (?c, ?f)))"
      "toks (s p') = rest" "src (s p') = src (s (parser_next p))"
      "eofPos (s p') = eofPos (s (parser_next p))" "scope p' = scope (parser_next p)"
    by blast
  show ?case
    using step p' n x by (intro exI[of _ p']) simp
qed

lemma afterSwitch_with_src:
  "afterSwitch inFlags (with_src x p) t isConst flags
     = map_src x (src3 x) (afterSwitch inFlags p t isConst flags)"
  unfolding afterSwitch_def Let_def
  by (auto simp: parse_with_src andThen_map_src map_src_andThen dest!: lookupType_ErrD
      split: option.splits result.splits)

lemma parser_next_determined:
  "s p = s p' \<Longrightarrow> scope p = scope p' \<Longrightarrow> parser_next p = parser_next p'"
  by (cases p; cases p') (simp add: parser_next_def split: prod.splits)

lemma err_src_err_src: "err_src y (err_src x e) = err_src y e"
  by (cases e) simp_all

lemma ParseType_scanner_up_to_source:
  assumes "parse flags p2 = map_src x (src3 x) (parse flags p1)"
  shows "withoutSource (andThen (parse flags p2)
            (\<lambda>(t, isConst, p).
               if tok p \<noteq> EOF then Err (newError p (''unexpect token '' @ token_String (tok p)))
               else Ok (t, isConst)))
       = withoutSource (andThen (parse flags p1)
            (\<lambda>(t, isConst, p).
               if tok p \<noteq> EOF then Err (newError p (''unexpect token '' @ token_String (tok p)))
               else Ok (t, isConst)))"
proof (cases "parse flags p1")
  case (Ok v)
  obtain t c p where v: "v = (t, c, p)" by (cases v) auto
  from assms Ok v have "parse flags p2 = Ok (t, c, with_src x p)" by (simp add: src3_def)
  with Ok v show ?thesis by (simp add: withoutSource_def newError_def)
next
  case (Err e)
  with assms show ?thesis by (simp add: withoutSource_def err_src_err_src)
next
  case (Fatal m)
  with assms show ?thesis by simp
next
  case (Panic m)
  with assms show ?thesis by simp
qed

lemma ParseType_scanner_qualifier_order:
  assumes q1: "list_all isQualifier q1" and q2: "list_all isQualifier q2"
    and perm: "mset (map (\<lambda>x. snd (snd x)) q1) = mset (map (\<lambda>x. snd (snd x)) q2)"
    and t1: "toks sc1 = q1 @ rest" and t2: "toks sc2 = q2 @ rest"
    and e: "eofPos sc1 = eofPos sc2"
  shows "withoutSource (ParseType_scanner reg sc1 flags)
       = withoutSource (ParseType_scanner reg sc2 flags)"
proof -
  let ?p1 = "\<lparr>s = sc1, scope = reg, pos = 0, tok = ILLEGAL, lit = []\<rparr>"
  let ?p2 = "\<lparr>s = sc2, scope = reg, pos = 0, tok = ILLEGAL, lit = []\<rparr>"
  let ?cf = "fold qualStep (map (\<lambda>x. snd (snd x)) q1) (False, 0)"
  have cf: "fold qualStep (map (\<lambda>x. snd (snd x)) q2) (False, 0) = ?cf"
    using fold_qualStep[OF perm] by simp
  have r1: "parse flags ?p1 = afterSwitch flags ?p1 None False 0"
    and r2: "parse flags ?p2 = afterSwitch flags ?p2 None False 0"
    by (simp_all add: parse_def afterSwitch_def)
  from afterSwitch_qualifiers[OF q1, of ?p1 rest flags None False 0] t1
  obtain p1' where a1: "afterSwitch flags ?p1 None False 0 = afterSwitch flags p1' None (fst ?cf) (snd ?cf)"
    and s1: "toks (s p1') = rest" "src (s p1') = src sc1" "eofPos (s p1') = eofPos sc1"
      "scope p1' = reg"
    by auto
  from afterSwitch_qualifiers[OF q2, of ?p2 rest flags None False 0] t2 cf
  obtain p2' where a2: "afterSwitch flags ?p2 None False 0 = afterSwitch flags p2' None (fst ?cf) (snd ?cf)"
    and s2: "toks (s p2') = rest" "src (s p2') = src sc2" "eofPos (s p2') = eofPos sc2"
      "scope p2' = reg"
    by auto
  have "s (with_src (src sc2) p1') = s p2'"
    using s1 s2 e by (intro scanner.equality) (simp_all add: with_src_def)
  then have nx: "parser_next p2' = parser_next (with_src (src sc2) p1')"
    using s1 s2 by (intro parser_next_determined) simp_all
  have "parse flags ?p2 = afterSwitch flags (with_src (src sc2) p1') None (fst ?cf) (snd ?cf)"
    using r2 a2 afterSwitch_cong_next[OF nx] by simp
  also have "\<dots> = map_src (src sc2) (src3 (src sc2)) (afterSwitch flags p1' None (fst ?cf) (snd ?cf))"
    by (rule afterSwitch_with_src)
  also have "\<dots> = map_src (src sc2) (src3 (src sc2)) (parse flags ?p1)"
    using r1 a1 by simp
  finally have "parse flags ?p2 = map_src (src sc2) (src3 (src sc2)) (parse flags ?p1)" .
  from ParseType_scanner_up_to_source[OF this] show ?thesis
    by (simp add: ParseType_scanner_def)
qed

section \<open>Bracket groups with and without the parameter flag\<close>

lemma newPointer_not_array: "\<not> isArray (newPointer t)"
  by (simp add: newPointer_def)

lemma isArray_not_signature: "isArray t \<Longrightarrow> \<not> isSignature t"
  by (cases t) simp_all

lemma parseArray_param:
  "isParam inFlags \<Longrightarrow> parseArray (Some t) inFlags p = Ok (r, p1) \<Longrightarrow> r = newPointer t"
  by (auto simp: parseArray_def Let_def andThen_eq_Ok split: if_splits)

lemma parseArray_no_param:
  "\<not> isParam inFlags \<Longrightarrow> parseArray (Some t) inFlags p = Ok (r, p1) \<Longrightarrow> \<exists>n. r = Array t n"
  by (auto simp: parseArray_def Let_def andThen_eq_Ok split: if_splits)

lemma parseArrays_Ok:
  assumes "parseArrays t inFlags p = Ok (r, p')"
  shows "\<exists>r1 p1. parseArray t inFlags p = Ok (r1, p1)
           \<and> (tok (parser_next p1) = EOF \<longrightarrow> r = r1)
           \<and> (tok (parser_next p1) \<noteq> EOF \<longrightarrow>
                  parseArrays (Some r1) inFlags (parser_next p1) = Ok (r, p'))"
proof -
  from assms obtain r1 p1 where a: "parseArray t inFlags p = Ok (r1, p1)"
    and b: "(if tok (parser_next p1) = EOF then Ok (r1, parser_next p1)
             else parseArrays (Some r1) inFlags (parser_next p1)) = Ok (r, p')"
    by (subst (asm) parseArrays.simps) (auto simp: andThen_eq_Ok Let_def)
  from b have "tok (parser_next p1) = EOF \<longrightarrow> r = r1"
    and "tok (parser_next p1) \<noteq> EOF \<longrightarrow>
           parseArrays (Some r1) inFlags (parser_next p1) = Ok (r, p')"
    by (simp_all split: if_splits)
  with a show ?thesis by blast
qed

lemma parseArrays_param:
  "isParam inFlags \<Longrightarrow> parseArrays t inFlags p = Ok (r, p') \<Longrightarrow> t = Some ty \<Longrightarrow>
     \<exists>k. r = (newPointer ^^ Suc k) ty"
proof (induction t inFlags p arbitrary: ty rule: parseArrays.induct)
  case (1 t inFlags p)
  from "1.prems"(2) obtain r1 p1 where a: "parseArray t inFlags p = Ok (r1, p1)"
    and e: "tok (parser_next p1) = EOF \<Longrightarrow> r = r1"
    and n: "tok (parser_next p1) \<noteq> EOF \<Longrightarrow>
           parseArrays (Some r1) inFlags (parser_next p1) = Ok (r, p')"
    using parseArrays_Ok[of t inFlags p r p'] by blast
  from parseArray_param[OF "1.prems"(1)] a "1.prems"(3) have r1: "r1 = newPointer ty" by simp
  show ?case
  proof (cases "tok (parser_next p1) = EOF")
    case True
    with e r1 have "r = (newPointer ^^ Suc 0) ty" by simp
    then show ?thesis by blast
  next
    case False
    from "1.IH"[OF a refl refl False "1.prems"(1) n[OF False] refl]
    obtain k where "r = (newPointer ^^ Suc k) r1" by blast
    with r1 have "r = (newPointer ^^ Suc (Suc k)) ty" by (simp add: funpow_swap1)
    then show ?thesis by blast
  qed
qed

lemma parseArrays_no_param:
  "\<not> isParam inFlags \<Longrightarrow> parseArrays t inFlags p = Ok (r, p') \<Longrightarrow> t = Some ty \<Longrightarrow> isArray r"
proof (induction t inFlags p arbitrary: ty rule: parseArrays.induct)
  case (1 t inFlags p)
  from "1.prems"(2) obtain r1 p1 where a: "parseArray t inFlags p = Ok (r1, p1)"
    and e: "tok (parser_next p1) = EOF \<Longrightarrow> r = r1"
    and n: "tok (parser_next p1) \<noteq> EOF \<Longrightarrow>
           parseArrays (Some r1) inFlags (parser_next p1) = Ok (r, p')"
    using parseArrays_Ok[of t inFlags p r p'] by blast
  from a "1.prems"(3) have "parseArray (Some ty) inFlags p = Ok (r1, p1)" by simp
  from parseArray_no_param[OF "1.prems"(1) this] have r1: "isArray r1" by auto
  show ?case
  proof (cases "tok (parser_next p1) = EOF")
    case True
    with e r1 show ?thesis by simp
  next
    case False
    from "1.IH"[OF a refl refl False "1.prems"(1) n[OF False] refl] show ?thesis .
  qed
qed

lemma not_isParam_0: "\<not> isParam 0"
  by (simp add: isParam_def)

section \<open>The end of the text behind a bracket group\<close>

lemma parser_next_toks: "toks (s (parser_next p)) = tl (toks (s p))"
  by (simp add: parser_next_def Scan_def split: list.splits prod.splits)

lemma parser_next_tok:
  "tok (parser_next p) = (case toks (s p) of [] \<Rightarrow> EOF | x # xs \<Rightarrow> fst (snd x))"
  by (simp add: parser_next_def Scan_def split: list.splits prod.splits)

lemma noEOF_next: "noEOF p \<Longrightarrow> noEOF (parser_next p)"
  by (cases "toks (s p)") (simp_all add: noEOF_def parser_next_toks)

lemma noEOF_at_end: "noEOF p \<Longrightarrow> tok (parser_next p) = EOF \<Longrightarrow> toks (s (parser_next p)) = []"
  by (cases "toks (s p)") (simp_all add: noEOF_def parser_next_toks parser_next_tok)

lemma scanFrom_noEOF: "list_all (\<lambda>x. fst (snd x) \<noteq> EOF) (scanFrom off cs)"
  by (induction off cs rule: scanFrom.induct) (simp_all add: symbolToken_def)

lemma parseArray_noEOF:
  "parseArray t inFlags p = Ok (r, p1) \<Longrightarrow> noEOF p \<Longrightarrow> noEOF p1"
  by (auto simp: parseArray_def Let_def andThen_eq_Ok expect_def noEOF_next
           split: if_splits option.splits sum.splits prod.splits)

lemma parseArrays_at_end:
  "parseArrays t inFlags p = Ok (r, p') \<Longrightarrow> noEOF p \<Longrightarrow> toks (s p') = []"
proof (induction t inFlags p rule: parseArrays.induct)
  case (1 t inFlags p)
  from "1.prems"(1) obtain r1 p1 where a: "parseArray t inFlags p = Ok (r1, p1)"
    and e: "tok (parser_next p1) = EOF \<Longrightarrow> p' = parser_next p1"
    and n: "tok (parser_next p1) \<noteq> EOF \<Longrightarrow>
           parseArrays (Some r1) inFlags (parser_next p1) = Ok (r, p')"
    by (subst (asm) parseArrays.simps) (auto simp: andThen_eq_Ok Let_def split: if_splits)
  from parseArray_noEOF[OF a "1.prems"(2)] have p1: "noEOF p1" .
  show ?case
  proof (cases "tok (parser_next p1) = EOF")
    case True
    with e noEOF_at_end[OF p1] show ?thesis by simp
  next
    case False
    from "1.IH"[OF a refl refl False n[OF False] noEOF_next[OF p1]] show ?thesis .
  qed
qed

lemma parse_loop_at_end:
  "toks (s p) = [] \<Longrightarrow> parse_loop inFlags p (Some ty) isConst flags = Ok (ty, isConst, parser_next p)"
  by (simp add: parse_loop.simps parse_retry.simps parser_next_tok)

lemma parse_retry_bracket:
  assumes "tok p = LBRACK" and "noEOF p"
    and "parse_retry inFlags p (Some t) isConst flags = Ok (r, c, p')"
  shows "\<exists>p1. parseArrays (Some t) inFlags p = Ok (r, p1) \<and> c = isConst \<and> p' = parser_next p1"
proof -
  from assms(1,3) obtain ty p1 where a: "parseArrays (Some t) inFlags p = Ok (ty, p1)"
    and b: "parse_loop inFlags p1 (Some ty) isConst flags = Ok (r, c, p')"
    by (subst (asm) parse_retry.simps) (auto simp: andThen_eq_Ok)
  from parseArrays_at_end[OF a assms(2)] have "toks (s p1) = []" .
  from parse_loop_at_end[OF this, of inFlags ty isConst flags] b
  have "r = ty" "c = isConst" "p' = parser_next p1" by simp_all
  with a show ?thesis by simp
qed

lemma parse_nextTok_bracket:
  assumes "noEOF p" and "tok (parser_next p) = RPAREN"
    and "tok (parser_next (parser_next p)) = LBRACK"
    and "parse_nextTok inFlags p t isConst flags args isRetFn = Ok (r, c, p')"
  shows "\<exists>r1 p1. parseArrays (Some t) 0 (parser_next (parser_next p)) = Ok (r1, p1)
           \<and> isArray r1
           \<and> r = (if isRetFn then (if getRetType inFlags then r1 else Signature args [r1])
                  else Pointer r1)"
proof -
  from assms(2,3,4) obtain r1 p1
    where a: "parseArrays (Some t) 0 (parser_next (parser_next p)) = Ok (r1, p1)"
    and b: "(if isRetFn then
               (if getRetType inFlags then Ok (r1, isConst, p1\<lparr>tok := EOF\<rparr>)
                else parse_loop inFlags p1 (Some (Signature args [r1])) isConst flags)
             else if \<not> isSignature r1 then parse_loop inFlags p1 (Some (Pointer r1)) isConst flags
             else parse_loop inFlags p1 (Some r1) isConst flags) = Ok (r, c, p')"
    by (subst (asm) parse_nextTok.simps) (auto simp: andThen_eq_Ok Let_def)
  from parseArrays_no_param[OF not_isParam_0 a refl] have arr: "isArray r1" .
  then have sig: "\<not> isSignature r1" by (rule isArray_not_signature)
  from noEOF_next[OF noEOF_next[OF assms(1)]] have "noEOF (parser_next (parser_next p))" .
  from parseArrays_at_end[OF a this] have e: "toks (s p1) = []" .
  from b sig have "r = (if isRetFn then (if getRetType inFlags then r1 else Signature args [r1])
                  else Pointer r1)"
    by (auto simp: parse_loop_at_end[OF e] split: if_splits)
  with a arr show ?thesis by blast
qed

lemma funpow_newPointer_not_array: "\<not> isArray ((newPointer ^^ Suc k) t)"
  by (simp add: newPointer_not_array)

section \<open>The claims\<close>

text \<open>
  Claim C1, as the code has it. For the text \<^verbatim>\<open>int (*)(void *, int, char **, char **)\<close>,
  with both parse flags clear and a registry that resolves \<^verbatim>\<open>void\<close> to Void and
  \<^verbatim>\<open>char\<close> to a type other than Void, the parse succeeds and returns the function type
  itself, with the parameters unsafe pointer, int32, pointer to pointer to char (twice)
  and the result int32: behind a parenthesized \<^verbatim>\<open>(*)\<close> a function type is not wrapped
  in a pointer.
\<close>

theorem C1_function_pointer:
  assumes "sc ''void'' = Some Void" and "sc ''char'' = Some c" and "c \<noteq> Void"
  shows "ParseType sc ''int (*)(void *, int, char **, char **)'' 0
    = Ok (Signature [Typ UnsafePointer, Typ Int32, Pointer (Pointer c), Pointer (Pointer c)]
            [Typ Int32], False)"
  using assms by (simp add: scan_simps parse_simps cong: andThen_weak_cong)

theorem C1_function_pointer_witness:
  "registry0 ''void'' = Some Void \<and> registry0 ''char'' = Some (Typ Int8) \<and> Typ Int8 \<noteq> Void
   \<and> ParseType registry0 ''int (*)(void *, int, char **, char **)'' 0
    = Ok (Signature
            [Typ UnsafePointer, Typ Int32, Pointer (Pointer (Typ Int8)),
             Pointer (Pointer (Typ Int8))]
            [Typ Int32], False)"
  using C1_function_pointer[of registry0 "Typ Int8"] by (simp add: registry0_def)

text \<open>
  Claim C1 as stated fails: on that text the result is not a pointer wrapping the
  function type.
\<close>

theorem C1_counterexample:
  "ParseType registry0 ''int (*)(void *, int, char **, char **)'' 0
    \<noteq> Ok (Pointer (Signature
            [Typ UnsafePointer, Typ Int32, Pointer (Pointer (Typ Int8)),
             Pointer (Pointer (Typ Int8))]
            [Typ Int32]), False)"
  by (simp add: registry0_def scan_simps parse_simps cong: andThen_weak_cong)

text \<open>
  Claim C2, as the code has it. On every text \<^verbatim>\<open>ParseType\<close> ends in one of these ways:
  it succeeds; it returns a structured error that carries the original text, a position
  and a message; it returns the bare error \<^verbatim>\<open>ErrNotFound\<close> or \<^verbatim>\<open>io.ErrUnexpectedEOF\<close>,
  without text or position; or it ends the process through \<^verbatim>\<open>log.Fatalln\<close>. It never
  returns \<^verbatim>\<open>ErrInvalidType\<close> and never panics. A name the registry does not know is the
  bare \<^verbatim>\<open>ErrNotFound\<close>; a call that meets a comma or the end of input with no type is
  the bare \<^verbatim>\<open>io.ErrUnexpectedEOF\<close>; a keyword with qualifier flags outside the table
  ends the process.
\<close>

theorem C2_outcomes:
  "documented qualType (ParseType sc qualType flags)
   \<and> (lt \<noteq> ''int'' \<and> scope p lt = None \<longrightarrow> lookupType p lt 0 = Err ErrNotFound)
   \<and> (tok p = COMMA \<or> tok p = EOF \<longrightarrow>
        parse_retry inFlags p None isConst qflags = Err ErrUnexpectedEOF)
   \<and> (lt \<noteq> ''int'' \<and> lt \<noteq> ''char'' \<and> lt \<noteq> ''double'' \<and> lt \<noteq> ''__int128''
        \<and> qflags \<noteq> 0 \<and> qflags AND flagComplex = 0 \<longrightarrow>
        lookupType p lt qflags = Fatal ''lookupType: TODO - invalid type'')"
proof (intro conjI impI)
  let ?p0 = "\<lparr>s = scanner_Init qualType, scope = sc, pos = 0, tok = ILLEGAL, lit = []\<rparr>"
  have s0: "src (s ?p0) = qualType" by (simp add: scanner_Init_def)
  have d: "documented qualType (parse_loop flags ?p0 None False 0)"
    using documented_parse_loop(1)[OF flagsOk_consts(1), of ?p0 flags None False] s0 by simp
  show "documented qualType (ParseType sc qualType flags)"
  proof (cases "parse_loop flags ?p0 None False 0")
    case (Ok v)
    obtain ty c p1 where v: "v = (ty, c, p1)" by (cases v) auto
    from documented_parse_loop(2)[OF flagsOk_consts(1) Ok[unfolded v]] s0
    have "src (s p1) = qualType" by simp
    with Ok v show ?thesis
      by (simp add: ParseType_def ParseType_scanner_def parse_def documented_def newError_def Source_def)
  next
    case (Err e)
    with d show ?thesis by (simp add: ParseType_def ParseType_scanner_def parse_def documented_def)
  next
    case (Fatal m)
    with d show ?thesis by (simp add: ParseType_def ParseType_scanner_def parse_def documented_def)
  next
    case (Panic m)
    with d show ?thesis by (simp add: ParseType_def ParseType_scanner_def parse_def documented_def)
  qed
next
  assume "lt \<noteq> ''int'' \<and> scope p lt = None"
  then show "lookupType p lt 0 = Err ErrNotFound" by (simp add: lookupType_def)
next
  assume "tok p = COMMA \<or> tok p = EOF"
  then show "parse_retry inFlags p None isConst qflags = Err ErrUnexpectedEOF"
    by (auto simp: parse_retry.simps)
next
  assume "lt \<noteq> ''int'' \<and> lt \<noteq> ''char'' \<and> lt \<noteq> ''double'' \<and> lt \<noteq> ''__int128''
        \<and> qflags \<noteq> 0 \<and> qflags AND flagComplex = 0"
  then show "lookupType p lt qflags = Fatal ''lookupType: TODO - invalid type''"
    by (simp add: lookupType_def)
qed

theorem C2_outcomes_witness:
  "documented ''* int'' (ParseType registry0 ''* int'' 0)
   \<and> ParseType registry0 ''* int'' 0 = Err (ParseTypeError ''* int'' 0 ''pointer to nil'')
   \<and> ''foo'' \<noteq> ''int'' \<and> scope (parser0 []) ''foo'' = None
   \<and> lookupType (parser0 []) ''foo'' 0 = Err ErrNotFound
   \<and> tok (parser_next (parser0 [])) = EOF
   \<and> parse_retry 0 (parser_next (parser0 [])) None False 0 = Err ErrUnexpectedEOF
   \<and> ''float'' \<noteq> ''int'' \<and> ''float'' \<noteq> ''char'' \<and> ''float'' \<noteq> ''double''
   \<and> ''float'' \<noteq> ''__int128'' \<and> flagShort \<noteq> 0 \<and> flagShort AND flagComplex = 0
   \<and> lookupType (parser0 []) ''float'' flagShort = Fatal ''lookupType: TODO - invalid type''"
  using C2_outcomes[of "''* int''" registry0 0 "''foo''" "parser0 []" "0" False flagShort]
    C2_outcomes[of "''* int''" registry0 0 "''float''" "parser_next (parser0 [])" "0" False flagShort]
  by (simp add: parser0_def registry0_def scan_simps parse_simps cong: andThen_weak_cong)

text \<open>
  Claim C2 as stated fails: a qualifier combination outside the table ends the process,
  and an unknown name and an empty text are returned as bare errors, without the text
  and without a position.
\<close>

theorem C2_counterexample:
  "ParseType registry0 ''short double'' 0 = Fatal ''lookupType: TODO - invalid type''
   \<and> ParseType registry0 ''foo'' 0 = Err ErrNotFound
   \<and> ParseType registry0 [] 0 = Err ErrUnexpectedEOF"
  by (simp add: registry0_def scan_simps parse_simps cong: andThen_weak_cong)

text \<open>
  Claim C3, as the code has it. Resolving \<^verbatim>\<open>int\<close> under each flag set of the table gives
  the documented type: none gives int32, short int16, long the long width, long+longlong
  int64, unsigned uint32, short+unsigned uint16, long+unsigned the ulong width and
  long+longlong+unsigned uint64. Under short+long+longlong+unsigned no type is produced:
  the call ends the process through \<^verbatim>\<open>log.Fatalln\<close> with the invalid-type message. The
  \<^verbatim>\<open>ErrInvalidType\<close> error behind it is never returned.
\<close>

theorem C3_int_table:
  "lookupType p ''int'' 0 = Ok (Typ Int32)
   \<and> lookupType p ''int'' flagShort = Ok (Typ Int16)
   \<and> lookupType p ''int'' flagLong = Ok Long
   \<and> lookupType p ''int'' (flagLong OR flagLongLong) = Ok (Typ Int64)
   \<and> lookupType p ''int'' flagUnsigned = Ok (Typ Uint32)
   \<and> lookupType p ''int'' (flagShort OR flagUnsigned) = Ok (Typ Uint16)
   \<and> lookupType p ''int'' (flagLong OR flagUnsigned) = Ok Ulong
   \<and> lookupType p ''int'' (flagLong OR flagLongLong OR flagUnsigned) = Ok (Typ Uint64)
   \<and> lookupType p ''int'' (flagShort OR flagLong OR flagLongLong OR flagUnsigned)
       = Fatal ''lookupType: TODO - invalid type''"
  by (simp add: lookupType_def intTypes_def flag_simps)

text \<open>
  Claim C3 as stated fails at the last flag set: the call does not return the
  \<^verbatim>\<open>ErrInvalidType\<close> error, it ends the process.
\<close>

theorem C3_counterexample:
  "lookupType (parser0 []) ''int'' (flagShort OR flagLong OR flagLongLong OR flagUnsigned)
     \<noteq> Err ErrInvalidType
   \<and> lookupType (parser0 []) ''int'' (flagShort OR flagLong OR flagLongLong OR flagUnsigned)
     = Fatal ''lookupType: TODO - invalid type''"
  by (simp add: lookupType_def intTypes_def flag_simps)

text \<open>
  Claim C4, as the code has it. Whether a bracket group decays depends on where it
  stands, not only on the flags of the call.

  A bracket group that follows the type directly is parsed with the flags of the call
  (\<^verbatim>\<open>parseArrays(t, inFlags)\<close>). With \<^verbatim>\<open>IsParam\<close> set every such group applies the pointer
  rule to the type before it: one group gives the pointer to the element type, or the
  unsafe pointer when the element type is Void, and the type the parse returns behind
  the groups is never an array.

  A bracket group behind a parenthesized \<^verbatim>\<open>(*)\<close> or \<^verbatim>\<open>(^)\<close> is parsed with the flags
  cleared (\<^verbatim>\<open>parseArrays(t, 0)\<close>), whatever the flags of the call: it stays an array, and
  the parse returns the pointer to that array (for a declarator that also has a
  parameter list, the function returning it).

  On \<^verbatim>\<open>int [10]\<close> the parse gives the pointer to int32 with the flag set and the array of
  ten int32 with the flag clear; on \<^verbatim>\<open>int (*)[10]\<close> with the flag set it gives the pointer
  to the array of ten int32. The scanner states are those with no end-of-input triple
  among the triples still to deliver, as \<^verbatim>\<open>scanner_Init\<close> makes them.
\<close>

theorem C4_array_decay:
  "(isParam inFlags \<and> parseArray (Some t) inFlags p = Ok (r1, p1) \<longrightarrow>
      r1 = (if t = Void then Typ UnsafePointer else Pointer t) \<and> \<not> isArray r1)
   \<and> (isParam inFlags \<and> tok p = LBRACK \<and> noEOF p
        \<and> parse_retry inFlags p (Some t) isConst qflags = Ok (r, c, p') \<longrightarrow>
      (\<exists>k. r = (newPointer ^^ Suc k) t) \<and> \<not> isArray r)
   \<and> (noEOF q \<and> tok (parser_next q) = RPAREN \<and> tok (parser_next (parser_next q)) = LBRACK
        \<and> parse_nextTok inFlags q t isConst qflags args isRetFn = Ok (rq, cq, q') \<longrightarrow>
      (\<exists>a. isArray a
          \<and> rq = (if isRetFn then (if getRetType inFlags then a else Signature args [a])
                  else Pointer a)))
   \<and> noEOF (parser0 qualType)
   \<and> (noEOF p \<longrightarrow> noEOF (parser_next p))
   \<and> ParseType sc ''int [10]'' FlagIsParam = Ok (Pointer (Typ Int32), False)
   \<and> ParseType sc ''int [10]'' 0 = Ok (Array (Typ Int32) 10, False)
   \<and> ParseType sc ''int (*)[10]'' FlagIsParam = Ok (Pointer (Array (Typ Int32) 10), False)"
proof (intro conjI impI)
  assume a: "isParam inFlags \<and> parseArray (Some t) inFlags p = Ok (r1, p1)"
  then have "r1 = newPointer t"
    using parseArray_param[of inFlags t p r1 p1] by blast
  then show "r1 = (if t = Void then Typ UnsafePointer else Pointer t)"
    by (simp add: newPointer_def NotVoid_def)
  then show "\<not> isArray r1" by simp
next
  assume a: "isParam inFlags \<and> tok p = LBRACK \<and> noEOF p
        \<and> parse_retry inFlags p (Some t) isConst qflags = Ok (r, c, p')"
  then obtain p2 where "parseArrays (Some t) inFlags p = Ok (r, p2)"
    using parse_retry_bracket[of p inFlags t isConst qflags r c p'] by blast
  with a have k: "\<exists>k. r = (newPointer ^^ Suc k) t"
    using parseArrays_param[of inFlags "Some t" p r p2 t] by blast
  then show "\<exists>k. r = (newPointer ^^ Suc k) t" .
  from k show "\<not> isArray r"
    using funpow_newPointer_not_array by blast
next
  assume "noEOF q \<and> tok (parser_next q) = RPAREN \<and> tok (parser_next (parser_next q)) = LBRACK
        \<and> parse_nextTok inFlags q t isConst qflags args isRetFn = Ok (rq, cq, q')"
  then show "\<exists>a. isArray a
          \<and> rq = (if isRetFn then (if getRetType inFlags then a else Signature args [a])
                  else Pointer a)"
    using parse_nextTok_bracket[of q inFlags t isConst qflags args isRetFn rq cq q'] by blast
next
  show "noEOF (parser0 qualType)"
    by (simp add: noEOF_def parser0_def scanner_Init_def scanFrom_noEOF)
next
  assume "noEOF p"
  then show "noEOF (parser_next p)" by (rule noEOF_next)
next
  show "ParseType sc ''int [10]'' FlagIsParam = Ok (Pointer (Typ Int32), False)"
    by (simp add: scan_simps parse_simps cong: andThen_weak_cong)
next
  show "ParseType sc ''int [10]'' 0 = Ok (Array (Typ Int32) 10, False)"
    by (simp add: scan_simps parse_simps cong: andThen_weak_cong)
next
  show "ParseType sc ''int (*)[10]'' FlagIsParam = Ok (Pointer (Array (Typ Int32) 10), False)"
    by (simp add: scan_simps parse_simps cong: andThen_weak_cong)
qed

theorem C4_array_decay_witness:
  "isParam FlagIsParam
   \<and> parseArray (Some (Typ Int32)) FlagIsParam (parser_next (parser_next (parser0 ''int [10]'')))
      = Ok (Pointer (Typ Int32),
            parser_next (parser_next (parser_next (parser_next (parser0 ''int [10]'')))))
   \<and> tok (parser_next (parser_next (parser0 ''int [10]''))) = LBRACK
   \<and> noEOF (parser_next (parser_next (parser0 ''int [10]'')))
   \<and> parse_retry FlagIsParam (parser_next (parser_next (parser0 ''int [10]'')))
        (Some (Typ Int32)) False 0
      = Ok (Pointer (Typ Int32), False,
            parser_next (parser_next (parser_next (parser_next (parser_next (parser_next
              (parser0 ''int [10]'')))))))
   \<and> noEOF (parser_next (parser_next (parser_next (parser0 ''int (*)[10]''))))
   \<and> tok (parser_next (parser_next (parser_next (parser_next (parser0 ''int (*)[10]''))))) = RPAREN
   \<and> tok (parser_next (parser_next (parser_next (parser_next (parser_next
        (parser0 ''int (*)[10]'')))))) = LBRACK
   \<and> parse_nextTok FlagIsParam (parser_next (parser_next (parser_next (parser0 ''int (*)[10]''))))
        (Typ Int32) False 0 [] False
      = Ok (Pointer (Array (Typ Int32) 10), False,
            parser_next (parser_next (parser_next (parser_next (parser_next (parser_next
              (parser_next (parser_next (parser_next (parser0 ''int (*)[10]''))))))))))
   \<and> \<not> isArray (Pointer (Typ Int32))
   \<and> (\<exists>k. Pointer (Typ Int32) = (newPointer ^^ Suc k) (Typ Int32))
   \<and> (\<exists>a. isArray a \<and> Pointer (Array (Typ Int32) 10) = Pointer a)
   \<and> noEOF (parser_next (parser_next (parser_next (parser0 ''int [10]''))))"
  using C4_array_decay[where inFlags = FlagIsParam and t = "Typ Int32"
      and p = "parser_next (parser_next (parser0 ''int [10]''))"
      and ?r1.0 = "Pointer (Typ Int32)"
      and ?p1.0 = "parser_next (parser_next (parser_next (parser_next (parser0 ''int [10]''))))"
      and isConst = False and qflags = 0
      and r = "Pointer (Typ Int32)" and c = False
      and p' = "parser_next (parser_next (parser_next (parser_next (parser_next (parser_next
              (parser0 ''int [10]''))))))"
      and q = "parser_next (parser_next (parser_next (parser0 ''int (*)[10]'')))"
      and args = "[]" and isRetFn = False
      and rq = "Pointer (Array (Typ Int32) 10)" and cq = False
      and q' = "parser_next (parser_next (parser_next (parser_next (parser_next (parser_next
              (parser_next (parser_next (parser_next (parser0 ''int (*)[10]'')))))))))"
      and qualType = "''int [10]''" and sc = registry0]
  by (simp add: parser0_def noEOF_def scan_simps parse_simps cong: andThen_weak_cong)

text \<open>
  Claim C4 as stated fails twice. For the element type Void: \<^verbatim>\<open>void [10]\<close> as a parameter
  gives the unsafe pointer, not the pointer to Void. And for a bracket group behind a
  parenthesized \<^verbatim>\<open>(*)\<close>: \<^verbatim>\<open>int (*)[10]\<close> as a parameter keeps the group as the array
  of ten int32 and gives the pointer to that array.
\<close>

theorem C4_counterexample:
  "ParseType registry0 ''void [10]'' FlagIsParam = Ok (Typ UnsafePointer, False)
   \<and> ParseType registry0 ''void [10]'' FlagIsParam \<noteq> Ok (Pointer Void, False)
   \<and> isParam FlagIsParam
   \<and> ParseType registry0 ''int (*)[10]'' FlagIsParam = Ok (Pointer (Array (Typ Int32) 10), False)"
  by (simp add: registry0_def scan_simps parse_simps cong: andThen_weak_cong)

text \<open>
  Claim C5. At a \<^verbatim>\<open>(\<close> behind a resolved type, when the next token is neither \<^verbatim>\<open>*\<close> nor
  \<^verbatim>\<open>^\<close>: with the \<^verbatim>\<open>GetRetType\<close> flag set the call returns the type and constness it
  has, with the current token set to end of input; with the flag clear it returns the
  error of the failed expectation.
\<close>

theorem C5_return_type_only:
  assumes "tok p = LPAREN"
    and "tok (parser_next p) \<noteq> MUL" and "tok (parser_next p) \<noteq> XOR_tok"
  shows "parse_retry inFlags p (Some ty) isConst flags =
    (if getRetType inFlags then Ok (ty, isConst, (parser_next p)\<lparr>tok := EOF\<rparr>)
     else Err (newError (parser_next p)
                (''expect *, got '' @ token_String (tok (parser_next p)))))"
  using assms by (simp add: parse_retry.simps expect2_def Let_def)

theorem C5_return_type_only_witness:
  "tok (parser_next (parser_next (parser0 ''int (int)''))) = LPAREN
   \<and> tok (parser_next (parser_next (parser_next (parser0 ''int (int)'')))) = IDENT
   \<and> parse_retry FlagGetRetType (parser_next (parser_next (parser0 ''int (int)'')))
        (Some (Typ Int32)) False 0
      = Ok (Typ Int32, False,
            (parser_next (parser_next (parser_next (parser0 ''int (int)''))))\<lparr>tok := EOF\<rparr>)
   \<and> ParseType registry0 ''int (int)'' FlagGetRetType = Ok (Typ Int32, False)
   \<and> ParseType registry0 ''int (int)'' 0
      = Err (ParseTypeError ''int (int)'' 5 ''expect *, got IDENT'')"
  using C5_return_type_only[of "parser_next (parser_next (parser0 ''int (int)''))"
      FlagGetRetType "Typ Int32" False 0]
  by (simp add: parser0_def registry0_def scan_simps parse_simps cong: andThen_weak_cong)

text \<open>
  Claim C6, as the code has it. In an argument list a parameter type is appended to the
  parameter sequence unless it is Void: every Void parameter is dropped, wherever it
  stands, and every other parameter is kept, in order. When the token behind a parameter
  is a comma the list goes on; when it is \<^verbatim>\<open>)\<close> the list ends; any other token is the
  error \<^verbatim>\<open>expect )\<close>; an error of a parameter's own parse is returned as it is. So a list
  that is returned ends on \<^verbatim>\<open>)\<close> and has no Void in what it added; \<^verbatim>\<open>(void)\<close> gives the
  empty list, and \<^verbatim>\<open>(void, int)\<close> gives the single parameter int32.
\<close>

theorem C6_parseArgs:
  "(parse FlagIsParam p = Ok (arg, c, p1) \<longrightarrow>
      parseArgs_loop p args =
        (if tok p1 = COMMA then parseArgs_loop p1 (if arg = Void then args else args @ [arg])
         else if tok p1 = RPAREN then Ok (if arg = Void then args else args @ [arg], p1)
         else Err (newError p1 ''expect )'')))
   \<and> (parse FlagIsParam p = Err e \<longrightarrow> parseArgs_loop p args = Err e)
   \<and> (parseArgs_loop p args = Ok (r, p') \<longrightarrow>
        tok p' = RPAREN \<and> take (length args) r = args \<and> Void \<notin> set (drop (length args) r))
   \<and> (sc ''void'' = Some Void \<longrightarrow>
        ParseType sc ''int (*)(void)'' 0 = Ok (Signature [] [Typ Int32], False)
        \<and> ParseType sc ''int (*)(void, int)'' 0 = Ok (Signature [Typ Int32] [Typ Int32], False))"
proof (intro conjI impI)
  assume "parse FlagIsParam p = Ok (arg, c, p1)"
  then show "parseArgs_loop p args =
        (if tok p1 = COMMA then parseArgs_loop p1 (if arg = Void then args else args @ [arg])
         else if tok p1 = RPAREN then Ok (if arg = Void then args else args @ [arg], p1)
         else Err (newError p1 ''expect )''))"
    by (subst parseArgs_loop.simps) (simp add: parse_def Let_def NotVoid_def)
next
  assume "parse FlagIsParam p = Err e"
  then show "parseArgs_loop p args = Err e"
    by (subst parseArgs_loop.simps) (simp add: parse_def)
next
  assume a: "parseArgs_loop p args = Ok (r, p')"
  from parseArgs_loop_result[OF a] show "tok p' = RPAREN" by simp
  from parseArgs_loop_result[OF a] show "take (length args) r = args" by simp
  from parseArgs_loop_result[OF a] show "Void \<notin> set (drop (length args) r)" by simp
next
  assume "sc ''void'' = Some Void"
  then show "ParseType sc ''int (*)(void)'' 0 = Ok (Signature [] [Typ Int32], False)"
    by (simp add: scan_simps parse_simps cong: andThen_weak_cong)
next
  assume "sc ''void'' = Some Void"
  then show "ParseType sc ''int (*)(void, int)'' 0 = Ok (Signature [Typ Int32] [Typ Int32], False)"
    by (simp add: scan_simps parse_simps cong: andThen_weak_cong)
qed

theorem C6_parseArgs_witness:
  "parse FlagIsParam (parser_next (parser0 ''(int, char)''))
     = Ok (Typ Int32, False, parser_next (parser_next (parser_next (parser0 ''(int, char)''))))
   \<and> tok (parser_next (parser_next (parser_next (parser0 ''(int, char)'')))) = COMMA
   \<and> parseArgs (parser_next (parser0 ''(int, char)''))
     = Ok ([Typ Int32, Typ Int8],
           parser_next (parser_next (parser_next (parser_next (parser_next (parser0 ''(int, char)''))))))
   \<and> parse FlagIsParam (parser_next (parser0 ''(foo)'')) = Err ErrNotFound
   \<and> parseArgs (parser_next (parser0 ''(foo)'')) = Err ErrNotFound
   \<and> registry0 ''void'' = Some Void
   \<and> ParseType registry0 ''int (*)(void)'' 0 = Ok (Signature [] [Typ Int32], False)"
  using C6_parseArgs[of "parser_next (parser0 ''(int, char)'')" "Typ Int32" False
      "parser_next (parser_next (parser_next (parser0 ''(int, char)'')))" "[]" ErrNotFound
      "[Typ Int32, Typ Int8]"
      "parser_next (parser_next (parser_next (parser_next (parser_next (parser0 ''(int, char)'')))))"
      registry0]
    C6_parseArgs[of "parser_next (parser0 ''(foo)'')" "Typ Int32" False
      "parser_next (parser0 ''(foo)'')" "[]" ErrNotFound "[]" "parser0 ''(foo)''" registry0]
  by (simp add: parser0_def registry0_def scan_simps parse_simps cong: andThen_weak_cong)

text \<open>
  Claim C6 as stated fails: a \<^verbatim>\<open>void\<close> that is not the only parameter is dropped too,
  it is not appended.
\<close>

theorem C6_counterexample:
  "ParseType registry0 ''int (*)(void, int)'' 0 = Ok (Signature [Typ Int32] [Typ Int32], False)
   \<and> ParseType registry0 ''int (*)(void, int)'' 0
       \<noteq> Ok (Signature [Void, Typ Int32] [Typ Int32], False)"
  by (simp add: registry0_def scan_simps parse_simps cong: andThen_weak_cong)

text \<open>
  Claim C7. The pointer rule on Void gives the unsafe pointer and never a pointer to
  Void; on any other type \<^verbatim>\<open>t\<close> it gives the pointer to \<^verbatim>\<open>t\<close>. At a \<^verbatim>\<open>*\<close> token with a
  current type, the parser goes on with the pointer rule applied to that type.
\<close>

theorem C7_pointer_rule:
  "newPointer Void = Typ UnsafePointer
   \<and> newPointer Void \<noteq> Pointer Void
   \<and> (t \<noteq> Void \<longrightarrow> newPointer t = Pointer t)
   \<and> (tok p = MUL \<longrightarrow>
        parse_retry inFlags p (Some t) isConst flags
          = parse_loop inFlags p (Some (newPointer t)) isConst flags)"
  by (simp add: newPointer_def NotVoid_def parse_retry.simps)

theorem C7_pointer_rule_witness:
  "Typ Int32 \<noteq> Void \<and> newPointer (Typ Int32) = Pointer (Typ Int32)
   \<and> tok (parser_next (parser_next (parser0 ''int *''))) = MUL
   \<and> parse_retry 0 (parser_next (parser_next (parser0 ''int *''))) (Some (Typ Int32)) False 0
      = parse_loop 0 (parser_next (parser_next (parser0 ''int *''))) (Some (Pointer (Typ Int32)))
          False 0
   \<and> ParseType registry0 ''int *'' 0 = Ok (Pointer (Typ Int32), False)
   \<and> ParseType registry0 ''void *'' 0 = Ok (Typ UnsafePointer, False)"
  using C7_pointer_rule[of "Typ Int32" "parser_next (parser_next (parser0 ''int *''))" 0 False 0]
    C7_pointer_rule[of "Void" "parser_next (parser_next (parser0 ''void *''))" 0 False 0]
  by (simp add: parser0_def registry0_def scan_simps parse_simps cong: andThen_weak_cong)

text \<open>
  Claim C8. Two texts whose tokens differ only in the order of the qualifier keywords in
  front (the same keywords, each as often, before the same remaining tokens, in texts of
  the same length) parse to the same result: the same type and the same constness, or the
  same failure. Only the text copied into an error differs, as the two texts do.
\<close>

theorem C8_qualifier_order:
  assumes "list_all isQualifier q1" and "list_all isQualifier q2"
    and "mset (map (\<lambda>x. snd (snd x)) q1) = mset (map (\<lambda>x. snd (snd x)) q2)"
    and "scanFrom 0 a = q1 @ rest" and "scanFrom 0 b = q2 @ rest"
    and "length a = length b"
  shows "withoutSource (ParseType reg a flags) = withoutSource (ParseType reg b flags)
    \<and> (ParseType reg a flags = Ok (t, c) \<longleftrightarrow> ParseType reg b flags = Ok (t, c))"
proof -
  have eq: "withoutSource (ParseType reg a flags) = withoutSource (ParseType reg b flags)"
    unfolding ParseType_def
    using assms by (intro ParseType_scanner_qualifier_order) (simp_all add: scanner_Init_def)
  have ok: "r = Ok (t, c) \<longleftrightarrow> withoutSource r = Ok (t, c)" for r :: "(ctype \<times> bool) result"
    by (cases r) (simp_all add: withoutSource_def)
  from eq ok[of "ParseType reg a flags"] ok[of "ParseType reg b flags"] show ?thesis by simp
qed

theorem C8_qualifier_order_witness:
  "list_all isQualifier [(0, IDENT, ''unsigned''), (9, IDENT, ''long'')]
   \<and> list_all isQualifier [(0, IDENT, ''long''), (5, IDENT, ''unsigned'')]
   \<and> scanFrom 0 ''unsigned long int''
       = [(0, IDENT, ''unsigned''), (9, IDENT, ''long'')] @ [(14, IDENT, ''int'')]
   \<and> scanFrom 0 ''long unsigned int''
       = [(0, IDENT, ''long''), (5, IDENT, ''unsigned'')] @ [(14, IDENT, ''int'')]
   \<and> mset (map (\<lambda>x. snd (snd x)) [(0::int, IDENT, ''unsigned''), (9, IDENT, ''long'')])
       = mset (map (\<lambda>x. snd (snd x)) [(0::int, IDENT, ''long''), (5, IDENT, ''unsigned'')])
   \<and> length ''unsigned long int'' = length ''long unsigned int''
   \<and> withoutSource (ParseType registry0 ''unsigned long int'' 0)
       = withoutSource (ParseType registry0 ''long unsigned int'' 0)
   \<and> ParseType registry0 ''unsigned long int'' 0 = Ok (Ulong, False)
   \<and> ParseType registry0 ''long unsigned int'' 0 = Ok (Ulong, False)
   \<and> ParseType registry0 ''unsigned long'' 0 = Ok (Ulong, False)
   \<and> ParseType registry0 ''long unsigned'' 0 = Ok (Ulong, False)"
  using C8_qualifier_order[of "[(0, IDENT, ''unsigned''), (9, IDENT, ''long'')]"
      "[(0, IDENT, ''long''), (5, IDENT, ''unsigned'')]"
      "''unsigned long int''" "[(14, IDENT, ''int'')]"
      "''long unsigned int''" registry0 0 Ulong False]
  by (simp add: isQualifier_def qualifierWords_def withoutSource_def registry0_def
      scan_simps parse_simps cong: andThen_weak_cong)

text \<open>
  Claim C9. With a registry that resolves \<^verbatim>\<open>void\<close> to Void, the text \<^verbatim>\<open>void\<close> parses to
  Void with constness false (whatever the parse flags); and a call that reaches a
  \<^verbatim>\<open>)\<close> with no type resolved returns Void, not an error.
\<close>

theorem C9_void:
  "(sc ''void'' = Some Void \<longrightarrow> ParseType sc ''void'' flags = Ok (Void, False))
   \<and> (tok p = RPAREN \<longrightarrow> parse_retry inFlags p None isConst qflags = Ok (Void, isConst, p))"
  by (simp add: scan_simps parse_simps cong: andThen_weak_cong)

theorem C9_void_witness:
  "registry0 ''void'' = Some Void
   \<and> ParseType registry0 ''void'' 0 = Ok (Void, False)
   \<and> tok (parser_next (parser_next (parser0 ''()''))) = RPAREN
   \<and> parse FlagIsParam (parser_next (parser0 ''()''))
      = Ok (Void, False, parser_next (parser_next (parser0 ''()'')))"
  using C9_void[of registry0 0 "parser_next (parser_next (parser0 ''()''))" FlagIsParam False 0]
  by (simp add: parser0_def registry0_def scan_simps parse_simps cong: andThen_weak_cong)

text \<open>
  Claim C10. Resolving \<^verbatim>\<open>int\<close> under a flag set without complex ignores the signed flag:
  the result is the result for the flag set with signed removed. In particular
  \<^verbatim>\<open>signed unsigned int\<close> parses to uint32 and is not rejected.
\<close>

theorem C10_signed_ignored:
  "(flags AND flagComplex = 0 \<longrightarrow>
      lookupType p ''int'' flags = lookupType p ''int'' (flags AND NOT flagSigned))
   \<and> ParseType sc ''signed unsigned int'' 0 = Ok (Typ Uint32, False)"
proof (intro conjI impI)
  assume c: "flags AND flagComplex = 0"
  show "lookupType p ''int'' flags = lookupType p ''int'' (flags AND NOT flagSigned)"
  proof (cases "flags AND NOT flagSigned = 0")
    case True
    from and_not_signed_zero[OF True] show ?thesis
      by (auto simp: lookupType_def intTypes_def flag_simps)
  next
    case False
    then have "flags \<noteq> 0" by auto
    with False c and_not_signed_complex[of flags] and_not_signed_idem[of flags]
    show ?thesis by (simp add: lookupType_def Let_def)
  qed
next
  show "ParseType sc ''signed unsigned int'' 0 = Ok (Typ Uint32, False)"
    by (simp add: scan_simps parse_simps cong: andThen_weak_cong)
qed

theorem C10_signed_ignored_witness:
  "(flagSigned OR flagUnsigned) AND flagComplex = 0
   \<and> lookupType (parser0 []) ''int'' (flagSigned OR flagUnsigned) = Ok (Typ Uint32)
   \<and> lookupType (parser0 []) ''int'' ((flagSigned OR flagUnsigned) AND NOT flagSigned)
       = Ok (Typ Uint32)"
  using C10_signed_ignored[of "flagSigned OR flagUnsigned" "parser0 []" registry0]
  by (simp add: lookupType_def intTypes_def flag_simps)

end
